theory Spec2Isabelle
  imports Complex_Main "HOL-Library.Multiset"
begin

section \<open>Data model\<close>

text \<open>
  The program is a single Python module. Its exceptions are modelled as values: every
  operation that can raise returns \<open>py_error + 'a\<close>, with \<open>Inl\<close> for the exception.
  Python floats are modelled by \<open>real\<close>: a finite float is its exact value, and there
  is no NaN. The total of the rank engine is a real sum; the float sum that \<open>get_points\<close>
  formats is computed with an addition that is a parameter.
\<close>

datatype py_error = IndexError | KeyError | ValueError | AttributeError

text \<open>
  A submission record as the scoreboard service sends it:
  \<^verbatim>\<open>{key, user, task, time, extra: [component scores], score}\<close>.
\<close>

record submission =
  key :: string
  user :: string
  task :: string
  time :: int
  extra :: "real list"
  score :: real

text \<open>
  \<^verbatim>\<open>class State\<close>: \<open>state\<close> is the nested dictionary participant -> problem -> list of
  best component scores, \<open>submissions\<close> the list of the keys applied so far.
\<close>

record State =
  state :: "string \<rightharpoonup> (string \<rightharpoonup> real list)"
  submissions :: "string list"

section \<open>The submission ledger\<close>

text \<open>\<^verbatim>\<open>return submission['key'] in self.submissions\<close>\<close>

definition has_submission :: "State \<Rightarrow> submission \<Rightarrow> bool" where
  "has_submission st sub = (key sub \<in> set (submissions st))"

text \<open>
  The loop of \<^verbatim>\<open>add_submission\<close>, over the indices \<^verbatim>\<open>range(len(points))\<close>:
  \<^verbatim>\<open>vec[i] = max(vec[i], float(points[i]))\<close>.
  Reading or writing \<^verbatim>\<open>vec[i]\<close> with \<open>i\<close> beyond the stored vector raises IndexError.
\<close>

fun add_loop :: "real list \<Rightarrow> real list \<Rightarrow> nat list \<Rightarrow> py_error + real list" where
  "add_loop vec points [] = Inr vec"
| "add_loop vec points (i # is) =
     (if i < length vec
      then add_loop (vec[i := max (vec ! i) (points ! i)]) points is
      else Inl IndexError)"

text \<open>
  \<^verbatim>\<open>
  def add_submission(self, submission):
      participant, problem, points = submission['user'], submission['task'], submission['extra']
      if participant not in self.state:
          self.state[participant] = {}
      if problem not in self.state[participant]:
          self.state[participant][problem] = [.0] * len(points)
      for i in range(len(points)):
          self.state[participant][problem][i] = max(self.state[participant][problem][i], float(points[i]))
      self.submissions.append(submission['key'])
  \<close>
  An exception leaves the method before the key is appended; it is not caught anywhere in
  the program, so the process ends without writing the ledger.
\<close>

definition add_submission :: "State \<Rightarrow> submission \<Rightarrow> py_error + State" where
  "add_submission st sub =
     (let participant = user sub; problem = task sub; points = extra sub;
          per = (case state st participant of None \<Rightarrow> Map.empty | Some m \<Rightarrow> m);
          vec = (case per problem of None \<Rightarrow> replicate (length points) 0 | Some v \<Rightarrow> v)
      in case add_loop vec points [0..<length points] of
           Inl e \<Rightarrow> Inl e
         | Inr vec' \<Rightarrow>
             Inr (st\<lparr>state := (state st)(participant \<mapsto> per(problem \<mapsto> vec')),
                      submissions := submissions st @ [key sub]\<rparr>))"

text \<open>Applying a sequence of submissions in order; the first exception ends the run.\<close>

fun add_submissions :: "State \<Rightarrow> submission list \<Rightarrow> py_error + State" where
  "add_submissions st [] = Inr st"
| "add_submissions st (sub # subs) =
     (case add_submission st sub of Inl e \<Rightarrow> Inl e | Inr st' \<Rightarrow> add_submissions st' subs)"

text \<open>The stored score vector of a (participant, problem) pair, if there is one.\<close>

definition score_vector :: "State \<Rightarrow> string \<Rightarrow> string \<Rightarrow> real list option" where
  "score_vector st participant problem =
     (case state st participant of None \<Rightarrow> None | Some per \<Rightarrow> per problem)"

text \<open>
  Auxiliary notions for the statements below: the vector a submission meets (the stored one,
  or the zero vector the method creates), and the component-wise maximum the loop computes
  when it does not raise.
\<close>

definition merge_max :: "real list \<Rightarrow> real list \<Rightarrow> real list" where
  "merge_max vec points =
     map (\<lambda>j. if j < length points then max (vec ! j) (points ! j) else vec ! j) [0..<length vec]"

definition start_vector :: "State \<Rightarrow> submission \<Rightarrow> real list" where
  "start_vector st sub =
     (case score_vector st (user sub) (task sub) of
        None \<Rightarrow> replicate (length (extra sub)) 0 | Some v \<Rightarrow> v)"

section \<open>Integers as text\<close>

text \<open>
  \<^verbatim>\<open>str(n)\<close> and \<^verbatim>\<open>'{}'.format(n)\<close> for an integer \<open>n \<ge> 0\<close>: its decimal digits, most
  significant first.
\<close>

definition digit_char :: "nat \<Rightarrow> char" where
  "digit_char d = ''0123456789'' ! d"

fun str_nat :: "nat \<Rightarrow> string" where
  "str_nat n = (if n < 10 then [digit_char n] else str_nat (n div 10) @ [digit_char (n mod 10)])"

declare str_nat.simps [simp del]

definition is_digit :: "char \<Rightarrow> bool" where
  "is_digit c = (c \<in> set ''0123456789'')"

definition digit_val :: "char \<Rightarrow> nat" where
  "digit_val c = of_char c - 48"

text \<open>
  \<^verbatim>\<open>int(s)\<close> for a string: the value of a non-empty string of ASCII digits, ValueError
  otherwise. (Python also accepts surrounding blanks, a sign and single underscores between
  digits; no descriptor that this program writes has any, and no statement below is about
  such a string.) \<^verbatim>\<open>x.split('-')[0]\<close> is the part of \<open>x\<close> before its first dash.
\<close>

definition py_int :: "string \<Rightarrow> py_error + int" where
  "py_int s =
     (if s \<noteq> [] \<and> list_all is_digit s
      then Inr (int (fold (\<lambda>c n. 10 * n + digit_val c) s 0))
      else Inl ValueError)"

definition first_piece :: "string \<Rightarrow> string" where
  "first_piece x = takeWhile (\<lambda>c. c \<noteq> CHR ''-'') x"

section \<open>The rank engine\<close>

text \<open>
  \<^verbatim>\<open>class Scoreboard\<close>. \<open>old_positions\<close> is \<open>None\<close> while the attribute has not been
  assigned (the constructor returns before it when there are no scores).
\<close>

record Scoreboard =
  positions :: "string \<rightharpoonup> string"
  ok :: bool
  old_positions :: "(string \<rightharpoonup> string) option"

text \<open>
  \<^verbatim>\<open>total_score = sum(problem_stats.values())\<close>; a dictionary that is iterated is an
  association list in insertion order (its keys are distinct). The sum of floats is the sum
  of reals here; what is proved about ranks uses only that totals are compared by \<open>=\<close>
  and \<open><\<close>.
\<close>

definition total_score :: "(string \<times> real) list \<Rightarrow> real" where
  "total_score problem_stats = sum_list (map snd problem_stats)"

text \<open>\<^verbatim>\<open>points[total_score].append(id)\<close> on a \<^verbatim>\<open>defaultdict(list)\<close>.\<close>

fun append_id :: "real \<Rightarrow> string \<Rightarrow> (real \<times> string list) list \<Rightarrow> (real \<times> string list) list" where
  "append_id t pid [] = [(t, [pid])]"
| "append_id t pid ((t', people) # rest) =
     (if t = t' then (t', people @ [pid]) # rest else (t', people) # append_id t pid rest)"

text \<open>\<^verbatim>\<open>for id, problem_stats in scores.items(): ...\<close>\<close>

fun group_points ::
  "(string \<times> (string \<times> real) list) list \<Rightarrow> (real \<times> string list) list \<Rightarrow> (real \<times> string list) list" where
  "group_points [] points = points"
| "group_points ((pid, problem_stats) # rest) points =
     group_points rest (append_id (total_score problem_stats) pid points)"

text \<open>
  \<^verbatim>\<open>'{}-{}'.format(ptr + 1, ptr + ln) if ln > 1 else str(ptr + 1)\<close>
  (the source's \<^verbatim>\<open>ln\<close> is \<open>len\<close> here).
\<close>

definition descriptor :: "nat \<Rightarrow> nat \<Rightarrow> string" where
  "descriptor ptr len =
     (if len > 1 then str_nat (ptr + 1) @ ''-'' @ str_nat (ptr + len) else str_nat (ptr + 1))"

text \<open>\<^verbatim>\<open>for id in people: self.positions[id] = ...\<close>\<close>

fun assign_group :: "string \<Rightarrow> string list \<Rightarrow> (string \<rightharpoonup> string) \<Rightarrow> (string \<rightharpoonup> string)" where
  "assign_group d [] pos = pos"
| "assign_group d (pid # people) pos = assign_group d people (pos(pid \<mapsto> d))"

text \<open>
  \<^verbatim>\<open>
  ptr = 0
  for points, people in sorted(points.items(), key = itemgetter(0), reverse = True):
      ln = len(people)
      for id in people:
        self.positions[id] = '{}-{}'.format(ptr + 1, ptr + ln) if ln > 1 else str(ptr + 1)
      ptr += ln
  \<close>
\<close>

fun assign_positions ::
  "nat \<Rightarrow> (real \<times> string list) list \<Rightarrow> (string \<rightharpoonup> string) \<Rightarrow> (string \<rightharpoonup> string)" where
  "assign_positions ptr [] pos = pos"
| "assign_positions ptr ((pts, people) # rest) pos =
     (let len = length people
      in assign_positions (ptr + len) rest (assign_group (descriptor ptr len) people pos))"

text \<open>
  \<^verbatim>\<open>Scoreboard.__init__(self, scores)\<close>. \<open>scores\<close> is \<open>None\<close> when the fetch failed;
  \<open>old\<close> is what \<^verbatim>\<open>scoreboard.json\<close> holds (the empty dictionary when there is no file).
  The stable descending sort is a stable ascending sort on the negated key.
\<close>

definition Scoreboard_init ::
  "(string \<times> (string \<times> real) list) list option \<Rightarrow> (string \<rightharpoonup> string) \<Rightarrow> Scoreboard" where
  "Scoreboard_init scores old =
     (if scores = None \<or> scores = Some []
      then \<lparr>positions = Map.empty, ok = False, old_positions = None\<rparr>
      else \<lparr>positions =
              assign_positions 0
                (sort_key (\<lambda>(pts, people). - pts) (group_points (the scores) [])) Map.empty,
            ok = True, old_positions = Some old\<rparr>)"

text \<open>The arrows U+2191 and U+2193, as their UTF-8 bytes.\<close>

definition up_arrow :: string where
  "up_arrow = [CHR 0xE2, CHR 0x86, CHR 0x91]"

definition down_arrow :: string where
  "down_arrow = [CHR 0xE2, CHR 0x86, CHR 0x93]"

text \<open>
  \<^verbatim>\<open>
  def get_result(self, id):
      if not self.ok:
          return '', '?'
      old_pos = self.old_positions.get(id, '?')
      new_pos = self.positions[id]
      if old_pos == '?':
          return '', new_pos
      op_st, np_st = [int(x.split('-')[0]) for x in [old_pos, new_pos]]
      if op_st > np_st:
          return up, new_pos
      if op_st < np_st:
          return down, new_pos
      return '', new_pos
  \<close>
\<close>

definition get_result :: "Scoreboard \<Rightarrow> string \<Rightarrow> py_error + (string \<times> string)" where
  "get_result sb pid =
     (if \<not> ok sb then Inr ('''', ''?'')
      else case old_positions sb of
        None \<Rightarrow> Inl AttributeError
      | Some old \<Rightarrow>
          let old_pos = (case old pid of None \<Rightarrow> ''?'' | Some d \<Rightarrow> d)
          in case positions sb pid of
               None \<Rightarrow> Inl KeyError
             | Some new_pos \<Rightarrow>
                 if old_pos = ''?'' then Inr ('''', new_pos)
                 else case py_int (first_piece old_pos) of
                   Inl e \<Rightarrow> Inl e
                 | Inr op_st \<Rightarrow>
                     (case py_int (first_piece new_pos) of
                        Inl e \<Rightarrow> Inl e
                      | Inr np_st \<Rightarrow>
                          if op_st > np_st then Inr (up_arrow, new_pos)
                          else if op_st < np_st then Inr (down_arrow, new_pos)
                          else Inr ('''', new_pos)))"

subsection \<open>Notions for the statements about ranks\<close>

text \<open>
  For the statements about ranks: the number of participants with a strictly greater total,
  and with the same total.
\<close>

definition count_above :: "(string \<times> (string \<times> real) list) list \<Rightarrow> real \<Rightarrow> nat" where
  "count_above scores t = length (filter (\<lambda>(pid, st). total_score st > t) scores)"

definition count_tied :: "(string \<times> (string \<times> real) list) list \<Rightarrow> real \<Rightarrow> nat" where
  "count_tied scores t = length (filter (\<lambda>(pid, st). total_score st = t) scores)"

text \<open>The number of participants in the groups whose total satisfies \<open>Q\<close>.\<close>

definition people_count :: "(real \<Rightarrow> bool) \<Rightarrow> (real \<times> string list) list \<Rightarrow> nat" where
  "people_count Q gs = sum_list (map (\<lambda>g. length (snd g)) (filter (\<lambda>g. Q (fst g)) gs))"

text \<open>
  The rank range of a participant with score entry \<open>st\<close>, as the specification describes it:
  it starts after everybody with a greater total and is as wide as the group of that total.
\<close>

definition rank_lo :: "(string \<times> (string \<times> real) list) list \<Rightarrow> (string \<times> real) list \<Rightarrow> nat" where
  "rank_lo scores st = count_above scores (total_score st) + 1"

definition rank_hi :: "(string \<times> (string \<times> real) list) list \<Rightarrow> (string \<times> real) list \<Rightarrow> nat" where
  "rank_hi scores st = count_above scores (total_score st) + count_tied scores (total_score st)"

text \<open>The totals of all participants, in the order of the score map.\<close>

definition totals :: "(string \<times> (string \<times> real) list) list \<Rightarrow> real list" where
  "totals scores = map (\<lambda>(pid, st). total_score st) scores"

section \<open>The leaderboard of the pipeline\<close>

text \<open>A configured participant: \<^verbatim>\<open>{login, name}\<close>.\<close>

record participant =
  login :: string
  name :: string

text \<open>
  The loop of \<^verbatim>\<open>main\<close> that builds \<^verbatim>\<open>pinned_text_builder\<close>:
  \<^verbatim>\<open>
  for participant in config['participants']:
      ...
      diff, result = scoreboard.get_result(login)
      ...
      pinned_text_builder.append(('[{}{}] {} ({}{}): {}'.format(diff, result, name, ...), result))
  \<close>
  The text of a line is a function \<open>line\<close> of the participant, \<open>diff\<close> and \<open>result\<close>; what
  else it shows (scores, the upgrade mark) is read from the ledger and the configuration,
  which the loop does not change. An exception of \<open>get_result\<close> ends the program.
\<close>

fun build_lines ::
  "(participant \<Rightarrow> string \<Rightarrow> string \<Rightarrow> string) \<Rightarrow> Scoreboard \<Rightarrow> participant list \<Rightarrow>
   py_error + (string \<times> string) list" where
  "build_lines line sb [] = Inr []"
| "build_lines line sb (p # ps) =
     (case get_result sb (login p) of
        Inl e \<Rightarrow> Inl e
      | Inr (diff, result) \<Rightarrow>
          (case build_lines line sb ps of
             Inl e \<Rightarrow> Inl e
           | Inr rest \<Rightarrow> Inr ((line p diff result, result) # rest)))"

text \<open>
  \<^verbatim>\<open>
  if not any(s(x) == '?' for x in pinned_text_builder):
      pinned_text_builder.sort(key = lambda x : int(s(x).split('-')[0]))
  \<close>
  \<^verbatim>\<open>list.sort\<close> is stable and computes every key before it moves anything; a key that
  cannot be computed raises ValueError.
\<close>

definition sort_lines :: "(string \<times> string) list \<Rightarrow> py_error + (string \<times> string) list" where
  "sort_lines builder =
     (if \<not> list_ex (\<lambda>x. snd x = ''?'') builder
      then (if list_all (\<lambda>x. \<not> isl (py_int (first_piece (snd x)))) builder
            then Inr (sort_key (\<lambda>x. projr (py_int (first_piece (snd x)))) builder)
            else Inl ValueError)
      else Inr builder)"

text \<open>The leaderboard lines as \<^verbatim>\<open>main\<close> joins them: built, then sorted.\<close>

definition leaderboard ::
  "(participant \<Rightarrow> string \<Rightarrow> string \<Rightarrow> string) \<Rightarrow> Scoreboard \<Rightarrow> participant list \<Rightarrow>
   py_error + (string \<times> string) list" where
  "leaderboard line sb participants =
     (case build_lines line sb participants of
        Inl e \<Rightarrow> Inl e
      | Inr builder \<Rightarrow> sort_lines builder)"

section \<open>The retrying fetcher\<close>

text \<open>
  The fetcher configuration. \<open>first_retry_delay\<close> is the number of seconds that
  \<^verbatim>\<open>pytimeparse.parse(self.config['first_retry_delay'])\<close> returns.
\<close>

record fetcher_config =
  first_retry_delay :: real
  retries :: int
  retry_delay_exponent :: real

text \<open>
  What one \<^verbatim>\<open>requests.get(url)\<close> does: it raises, or it returns a response with a status
  code and a body; \<open>None\<close> is a body for which \<^verbatim>\<open>result.json()\<close> raises.
\<close>

datatype 'j attempt = Raises | Response int "'j option"

text \<open>
  \<^verbatim>\<open>
  for i in range(retries):
      try:
          result = requests.get(url)
          if result.status_code != 200:
              print(url, result.status_code)
              continue
          return result.json()
      except:
          print('GET request to {} failed'.format(url))

      if i + 1 < retries:
          print('Sleeping for {}', retry_delay)
          time.sleep(retry_delay)
          retry_delay *= self.config['retry_delay_exponent']
  return None
  \<close>
  \<open>env i\<close> is what the attempt with index \<open>i\<close> meets. The function returns the result together
  with the arguments of the calls of \<^verbatim>\<open>time.sleep\<close>, in order. The \<^verbatim>\<open>continue\<close>
  goes to the next index at once; only the path through \<^verbatim>\<open>except\<close> reaches the sleep.
\<close>

fun retry_loop ::
  "fetcher_config \<Rightarrow> (nat \<Rightarrow> 'j attempt) \<Rightarrow> nat list \<Rightarrow> real \<Rightarrow> real list \<Rightarrow> 'j option \<times> real list" where
  "retry_loop cfg env [] retry_delay slept = (None, slept)"
| "retry_loop cfg env (i # is) retry_delay slept =
     (case env i of
        Response status_code body \<Rightarrow>
          if status_code \<noteq> 200 then retry_loop cfg env is retry_delay slept
          else (case body of
                  Some j \<Rightarrow> (Some j, slept)
                | None \<Rightarrow>
                    if int i + 1 < retries cfg
                    then retry_loop cfg env is (retry_delay * retry_delay_exponent cfg) (slept @ [retry_delay])
                    else retry_loop cfg env is retry_delay slept)
      | Raises \<Rightarrow>
          if int i + 1 < retries cfg
          then retry_loop cfg env is (retry_delay * retry_delay_exponent cfg) (slept @ [retry_delay])
          else retry_loop cfg env is retry_delay slept)"

text \<open>\<^verbatim>\<open>DataFetcher._get_request\<close>\<close>

definition get_request :: "fetcher_config \<Rightarrow> (nat \<Rightarrow> 'j attempt) \<Rightarrow> 'j option \<times> real list" where
  "get_request cfg env =
     retry_loop cfg env [0..<nat (retries cfg)] (first_retry_delay cfg) []"

text \<open>
  The delays the specification describes for \<open>n\<close> failed attempts: the running value before
  each attempt but the first, \<open>d, d * e, ..., d * e ^ (n - 2)\<close>.
\<close>

definition backoff_delays :: "real \<Rightarrow> real \<Rightarrow> nat \<Rightarrow> real list" where
  "backoff_delays d e n = map (\<lambda>k. d * e ^ k) [0..<n - 1]"

section \<open>The formatter\<close>

text \<open>
  The numbers the formatter is given. A Python int or a finite float is given by its exact
  value; negative zero is the one finite float that its value does not determine.
\<close>

datatype py_number = Finite real | NegZero

fun sign_bit :: "py_number \<Rightarrow> bool" where
  "sign_bit (Finite v) = (v < 0)"
| "sign_bit NegZero = True"

fun magnitude :: "py_number \<Rightarrow> real" where
  "magnitude (Finite v) = \<bar>v\<bar>"
| "magnitude NegZero = 0"

text \<open>
  Python's fixed-point presentation \<^verbatim>\<open>'{0:.Nf}'.format(value)\<close> of a finite number: the
  exact value is rounded to \<open>N\<close> decimals, half to even; a number with the sign bit set keeps
  its minus sign even when it rounds to zero; with \<open>N = 0\<close> there is no decimal point.
\<close>

definition round_half_even :: "real \<Rightarrow> int" where
  "round_half_even x =
     (let f = \<lfloor>x\<rfloor>; r = x - of_int f
      in if r < 1 / 2 then f else if 1 / 2 < r then f + 1 else if even f then f else f + 1)"

fun pad_digits :: "nat \<Rightarrow> nat \<Rightarrow> string" where
  "pad_digits 0 n = []"
| "pad_digits (Suc k) n = pad_digits k (n div 10) @ [digit_char (n mod 10)]"

definition format_f :: "nat \<Rightarrow> py_number \<Rightarrow> string" where
  "format_f prec v =
     (let n = nat (round_half_even (magnitude v * 10 ^ prec))
      in (if sign_bit v then ''-'' else '''') @ str_nat (n div 10 ^ prec) @
         (if prec = 0 then '''' else ''.'' @ pad_digits prec (n mod 10 ^ prec)))"

text \<open>
  \<^verbatim>\<open>
  class Formatter:
      def __init__(self):
          self.formatting_dict = {False: '{0:.0f}', True: '{0:.2f}'}
      def __call__(self, value, fractional_scoring):
          return self.formatting_dict[fractional_scoring].format(value)
  \<close>
  The dictionary is given by the precision of its two format strings.
\<close>

definition formatting_dict :: "bool \<Rightarrow> nat" where
  "formatting_dict fractional_scoring = (if fractional_scoring then 2 else 0)"

definition formatter :: "py_number \<Rightarrow> bool \<Rightarrow> string" where
  "formatter v fractional_scoring = format_f (formatting_dict fractional_scoring) v"

text \<open>
  \<^verbatim>\<open>
  def get_points(self, participant, problem, fractional_scoring):
      if participant not in self.state:
          return formatter(0, fractional_scoring)
      if problem not in self.state[participant]:
          return formatter(0, fractional_scoring)
      return formatter(sum(self.state[participant][problem]), fractional_scoring)
  \<close>
  \<^verbatim>\<open>sum\<close> adds the elements to 0 from the left. The addition of floats rounds; it is
  the parameter \<open>fadd\<close>, on the exact values of its arguments and of its result. A sum that
  starts from 0 is never negative zero.
\<close>

definition get_points ::
  "(real \<Rightarrow> real \<Rightarrow> real) \<Rightarrow> State \<Rightarrow> string \<Rightarrow> string \<Rightarrow> bool \<Rightarrow> string" where
  "get_points fadd st participant problem fractional_scoring =
     (case state st participant of
        None \<Rightarrow> formatter (Finite 0) fractional_scoring
      | Some per \<Rightarrow>
          (case per problem of
             None \<Rightarrow> formatter (Finite 0) fractional_scoring
           | Some vec \<Rightarrow>
               formatter (Finite (fold (\<lambda>x acc. fadd acc x) vec 0)) fractional_scoring))"

text \<open>
  For the statements about the formatter: \<open>n\<close> is the integer nearest to \<open>x\<close>, the even
  one of the two when \<open>x\<close> lies halfway between them.
\<close>

definition nearest_even :: "real \<Rightarrow> nat \<Rightarrow> bool" where
  "nearest_even x n = (\<bar>real n - x\<bar> < 1 / 2 \<or> \<bar>real n - x\<bar> = 1 / 2 \<and> even n)"

section \<open>Properties of the ledger\<close>

lemma add_loop_ok:
  "\<forall>i \<in> set is. i < length vec \<Longrightarrow>
   \<exists>vec'. add_loop vec points is = Inr vec' \<and> length vec' = length vec \<and>
     (\<forall>j < length vec. vec' ! j = (if j \<in> set is then max (vec ! j) (points ! j) else vec ! j))"
proof (induction "is" arbitrary: vec)
  case Nil
  then show ?case by simp
next
  case (Cons i "is")
  let ?v = "vec[i := max (vec ! i) (points ! i)]"
  have "\<forall>k \<in> set is. k < length ?v" using Cons.prems by simp
  from Cons.IH[OF this] obtain vec' where
    r: "add_loop ?v points is = Inr vec'" and l: "length vec' = length ?v" and
    c: "\<forall>j < length ?v. vec' ! j = (if j \<in> set is then max (?v ! j) (points ! j) else ?v ! j)"
    by blast
  have i: "i < length vec" using Cons.prems by simp
  have "\<forall>j < length vec. vec' ! j = (if j \<in> set (i # is) then max (vec ! j) (points ! j) else vec ! j)"
  proof (intro allI impI)
    fix j assume j: "j < length vec"
    show "vec' ! j = (if j \<in> set (i # is) then max (vec ! j) (points ! j) else vec ! j)"
      using c j i by (cases "j = i") (auto simp: nth_list_update)
  qed
  then show ?case using r l i by simp
qed

lemma add_loop_fail:
  "\<exists>i \<in> set is. \<not> i < length vec \<Longrightarrow> add_loop vec points is = Inl IndexError"
proof (induction "is" arbitrary: vec)
  case Nil
  then show ?case by simp
next
  case (Cons i "is")
  then show ?case by (cases "i < length vec") auto
qed

lemma length_merge_max: "length (merge_max vec points) = length vec"
  by (simp add: merge_max_def)

lemma nth_merge_max:
  "j < length vec \<Longrightarrow>
   merge_max vec points ! j = (if j < length points then max (vec ! j) (points ! j) else vec ! j)"
  by (simp add: merge_max_def)

lemma add_loop_range:
  "add_loop vec points [0..<length points] =
     (if length points \<le> length vec then Inr (merge_max vec points) else Inl IndexError)"
proof (cases "length points \<le> length vec")
  case True
  then have "\<forall>i \<in> set [0..<length points]. i < length vec" by auto
  from add_loop_ok[OF this, of points] obtain vec' where
    r: "add_loop vec points [0..<length points] = Inr vec'" and l: "length vec' = length vec" and
    c: "\<forall>j < length vec. vec' ! j =
          (if j \<in> set [0..<length points] then max (vec ! j) (points ! j) else vec ! j)"
    by blast
  have "vec' = merge_max vec points"
    by (rule nth_equalityI) (use l c in \<open>auto simp: length_merge_max nth_merge_max\<close>)
  then show ?thesis using r True by simp
next
  case False
  then have "\<exists>i \<in> set [0..<length points]. \<not> i < length vec"
    by (intro bexI[of _ "length vec"]) auto
  from add_loop_fail[OF this] show ?thesis using False by simp
qed

lemma add_submission_Inr:
  assumes "add_submission st sub = Inr st'"
  shows "length (extra sub) \<le> length (start_vector st sub)"
    and "score_vector st' p t =
          (if p = user sub \<and> t = task sub then Some (merge_max (start_vector st sub) (extra sub))
           else score_vector st p t)"
    and "submissions st' = submissions st @ [key sub]"
  using assms
  by (auto simp: add_submission_def Let_def add_loop_range start_vector_def score_vector_def
      split: option.splits if_splits)

lemma add_submission_Inl:
  "add_submission st sub = Inl e \<Longrightarrow> e = IndexError \<and> length (start_vector st sub) < length (extra sub)"
  by (auto simp: add_submission_def Let_def add_loop_range start_vector_def score_vector_def
      split: option.splits if_splits)

lemma add_submission_succeeds:
  "length (extra sub) \<le> length (start_vector st sub) \<Longrightarrow> \<exists>st'. add_submission st sub = Inr st'"
  by (cases "add_submission st sub") (auto dest: add_submission_Inl)

lemma merge_max_idem: "merge_max (merge_max vec points) points = merge_max vec points"
  by (rule nth_equalityI) (auto simp: length_merge_max nth_merge_max)

lemma add_submissions_keeps_keys:
  "add_submissions st subs = Inr st' \<Longrightarrow> set (submissions st) \<subseteq> set (submissions st')"
proof (induction subs arbitrary: st)
  case Nil
  then show ?case by simp
next
  case (Cons sub subs)
  then obtain st1 where 1: "add_submission st sub = Inr st1" and 2: "add_submissions st1 subs = Inr st'"
    by (auto split: sum.splits)
  from add_submission_Inr(3)[OF 1] Cons.IH[OF 2] show ?case by auto
qed

lemma add_submission_same_state:
  assumes "add_submission st sub = Inr st'"
    and "score_vector st (user sub) (task sub) = Some v"
    and "merge_max v (extra sub) = v"
  shows "state st' = state st"
proof -
  from assms(2) obtain per where p: "state st (user sub) = Some per" and v: "per (task sub) = Some v"
    by (auto simp: score_vector_def split: option.splits)
  have "per(task sub \<mapsto> v) = per" using v by (rule map_upd_triv)
  moreover have "(state st)(user sub \<mapsto> per) = state st" using p by (rule map_upd_triv)
  ultimately show ?thesis
    using assms(1,3) p v
    by (auto simp: add_submission_def Let_def add_loop_range split: if_splits)
qed

text \<open>
  Claim C2. Applying the same submission record a second time succeeds and leaves the whole
  score map, and so the score vector of its (participant, problem) pair, as it was after the
  first application; \<open>has_submission\<close> is true after the first application and stays
  true after any further successful applications.
\<close>
theorem add_submission_idempotent:
  assumes "add_submission st sub = Inr st1"
  shows "has_submission st1 sub \<and>
         (\<exists>st2. add_submission st1 sub = Inr st2 \<and> state st2 = state st1 \<and>
            score_vector st2 (user sub) (task sub) = score_vector st1 (user sub) (task sub) \<and>
            has_submission st2 sub) \<and>
         (\<forall>more st3. add_submissions st1 more = Inr st3 \<longrightarrow> has_submission st3 sub)"
proof -
  let ?v = "merge_max (start_vector st sub) (extra sub)"
  have len: "length (extra sub) \<le> length (start_vector st sub)"
    and sv1: "score_vector st1 (user sub) (task sub) = Some ?v"
    and keys: "submissions st1 = submissions st @ [key sub]"
    using add_submission_Inr[OF assms] by simp_all
  have h1: "has_submission st1 sub" using keys by (simp add: has_submission_def)
  have sv: "start_vector st1 sub = ?v" using sv1 by (simp add: start_vector_def)
  then have "length (extra sub) \<le> length (start_vector st1 sub)"
    using len by (simp add: length_merge_max)
  from add_submission_succeeds[OF this] obtain st2 where 2: "add_submission st1 sub = Inr st2" ..
  have same: "state st2 = state st1"
    using add_submission_same_state[OF 2 sv1 merge_max_idem] .
  have "score_vector st2 (user sub) (task sub) = score_vector st1 (user sub) (task sub)"
    using same by (simp add: score_vector_def)
  moreover have "has_submission st2 sub"
    using add_submission_Inr(3)[OF 2] by (simp add: has_submission_def)
  moreover have "\<forall>more st3. add_submissions st1 more = Inr st3 \<longrightarrow> has_submission st3 sub"
    using h1 add_submissions_keeps_keys by (fastforce simp: has_submission_def)
  ultimately show ?thesis using h1 2 same by blast
qed

theorem add_submission_idempotent_witness:
  "add_submission \<lparr>state = Map.empty, submissions = []\<rparr>
     \<lparr>key = ''k1'', user = ''ann'', task = ''A'', time = 10, extra = [30, 0], score = 30\<rparr>
   = Inr \<lparr>state = [''ann'' \<mapsto> [''A'' \<mapsto> [30, 0]]], submissions = [''k1'']\<rparr> \<and>
   has_submission \<lparr>state = [''ann'' \<mapsto> [''A'' \<mapsto> [30, 0]]], submissions = [''k1'']\<rparr>
     \<lparr>key = ''k1'', user = ''ann'', task = ''A'', time = 10, extra = [30, 0], score = 30\<rparr>"
proof -
  have a: "add_submission \<lparr>state = Map.empty, submissions = []\<rparr>
     \<lparr>key = ''k1'', user = ''ann'', task = ''A'', time = 10, extra = [30, 0], score = 30\<rparr>
   = Inr \<lparr>state = [''ann'' \<mapsto> [''A'' \<mapsto> [30, 0]]], submissions = [''k1'']\<rparr>"
    by (simp add: add_submission_def Let_def upt_rec)
  from add_submission_idempotent[OF a] a show ?thesis by blast
qed

lemma fold_merge_max:
  assumes "\<forall>s \<in> set subs. length (extra s) = length v"
  shows "length (fold (\<lambda>s w. merge_max w (extra s)) subs v) = length v \<and>
         (\<forall>i < length v. fold (\<lambda>s w. merge_max w (extra s)) subs v ! i =
            Max (insert (v ! i) ((\<lambda>s. extra s ! i) ` set subs)))"
  using assms
proof (induction subs arbitrary: v)
  case Nil
  then show ?case by simp
next
  case (Cons s subs)
  let ?v = "merge_max v (extra s)"
  have l: "length ?v = length v" by (rule length_merge_max)
  have "\<forall>s \<in> set subs. length (extra s) = length ?v" using Cons.prems l by simp
  from Cons.IH[OF this] have
    a: "length (fold (\<lambda>s w. merge_max w (extra s)) subs ?v) = length v" and
    b: "\<forall>i < length v. fold (\<lambda>s w. merge_max w (extra s)) subs ?v ! i =
            Max (insert (?v ! i) ((\<lambda>s. extra s ! i) ` set subs))"
    using l by simp_all
  have "\<forall>i < length v. fold (\<lambda>s w. merge_max w (extra s)) (s # subs) v ! i =
            Max (insert (v ! i) ((\<lambda>s. extra s ! i) ` set (s # subs)))"
  proof (intro allI impI)
    fix i assume i: "i < length v"
    have e: "?v ! i = max (v ! i) (extra s ! i)"
      using i Cons.prems by (simp add: nth_merge_max)
    have f: "finite ((\<lambda>s. extra s ! i) ` set subs)" by simp
    have "Max (insert (max (v ! i) (extra s ! i)) ((\<lambda>s. extra s ! i) ` set subs)) =
          Max (insert (v ! i) (insert (extra s ! i) ((\<lambda>s. extra s ! i) ` set subs)))"
    proof (cases "(\<lambda>s. extra s ! i) ` set subs = {}")
      case True
      then show ?thesis by simp
    next
      case False
      then show ?thesis using f by (simp add: max.assoc)
    qed
    then show "fold (\<lambda>s w. merge_max w (extra s)) (s # subs) v ! i =
            Max (insert (v ! i) ((\<lambda>s. extra s ! i) ` set (s # subs)))"
      using b i e by simp
  qed
  then show ?case using a by simp
qed

lemma add_submissions_pair:
  assumes "\<forall>s \<in> set subs. user s = p \<and> task s = t \<and> length (extra s) = n"
    and "score_vector st p t = Some v" and "length v = n"
  shows "\<exists>st'. add_submissions st subs = Inr st' \<and>
           score_vector st' p t = Some (fold (\<lambda>s w. merge_max w (extra s)) subs v)"
  using assms
proof (induction subs arbitrary: st v)
  case Nil
  then show ?case by simp
next
  case (Cons s subs)
  have s: "user s = p" "task s = t" "length (extra s) = n" using Cons.prems(1) by simp_all
  have sv: "start_vector st s = v" using Cons.prems(2) s by (simp add: start_vector_def)
  then have "length (extra s) \<le> length (start_vector st s)" using s Cons.prems(3) by simp
  from add_submission_succeeds[OF this] obtain st1 where 1: "add_submission st s = Inr st1" ..
  have v1: "score_vector st1 p t = Some (merge_max v (extra s))"
    using add_submission_Inr(2)[OF 1, of p t] s sv by simp
  have "\<forall>s \<in> set subs. user s = p \<and> task s = t \<and> length (extra s) = n"
    using Cons.prems(1) by simp
  from Cons.IH[OF this v1] Cons.prems(3) 1 show ?case by (simp add: length_merge_max)
qed

lemma add_submissions_fresh:
  assumes same: "\<forall>s \<in> set subs. user s = p \<and> task s = t \<and> length (extra s) = n"
    and fresh: "score_vector st p t = None" and ne: "subs \<noteq> []"
  shows "\<exists>st'. add_submissions st subs = Inr st' \<and>
           score_vector st' p t = Some (fold (\<lambda>s w. merge_max w (extra s)) subs (replicate n 0))"
proof -
  from ne obtain s rest where subs: "subs = s # rest" by (cases subs) auto
  have s: "user s = p" "task s = t" "length (extra s) = n" using same subs by simp_all
  have sv: "start_vector st s = replicate n 0" using fresh s by (simp add: start_vector_def)
  then have "length (extra s) \<le> length (start_vector st s)" using s by simp
  from add_submission_succeeds[OF this] obtain st1 where 1: "add_submission st s = Inr st1" ..
  have v1: "score_vector st1 p t = Some (merge_max (replicate n 0) (extra s))"
    using add_submission_Inr(2)[OF 1, of p t] s sv by simp
  have "\<forall>s \<in> set rest. user s = p \<and> task s = t \<and> length (extra s) = n"
    using same subs by simp
  from add_submissions_pair[OF this v1] 1 subs show ?thesis by (simp add: length_merge_max)
qed

lemma add_submission_monotone:
  assumes "add_submission st s = Inr st'" and "score_vector st p t = Some w"
  shows "\<exists>w'. score_vector st' p t = Some w' \<and> length w' = length w \<and>
           (\<forall>i < length w. w ! i \<le> w' ! i)"
proof (cases "p = user s \<and> t = task s")
  case True
  then have "start_vector st s = w" using assms(2) by (simp add: start_vector_def)
  then have "score_vector st' p t = Some (merge_max w (extra s))"
    using add_submission_Inr(2)[OF assms(1), of p t] True by simp
  then show ?thesis by (simp add: length_merge_max nth_merge_max)
next
  case False
  then have "score_vector st' p t = Some w"
    using add_submission_Inr(2)[OF assms(1), of p t] assms(2) by auto
  then show ?thesis by simp
qed

text \<open>
  Claim C1 (as amended). Let a non-empty sequence of submissions for one (participant,
  problem) pair, all with component vectors of length \<open>n\<close>, be applied to a ledger
  that has no vector for the pair yet. Every application succeeds, the stored vector has
  length \<open>n\<close>, and each of its components is the maximum of zero (the value the vector
  is initialised with) and that component of all the applied submissions. Every reordering
  of the sequence gives the same vector. An application that succeeds never lowers a stored
  component, for any pair and any ledger.
\<close>

theorem ledger_componentwise_max:
  assumes same: "\<forall>s \<in> set subs. user s = p \<and> task s = t \<and> length (extra s) = n"
    and fresh: "score_vector st p t = None" and ne: "subs \<noteq> []"
  shows "\<exists>st' v. add_submissions st subs = Inr st' \<and> score_vector st' p t = Some v \<and>
           length v = n \<and>
           (\<forall>i < n. v ! i = Max (insert 0 ((\<lambda>s. extra s ! i) ` set subs))) \<and>
           (\<forall>subs'. mset subs' = mset subs \<longrightarrow>
              (\<exists>st''. add_submissions st subs' = Inr st'' \<and> score_vector st'' p t = Some v)) \<and>
           (\<forall>st1 s st2 p' t' w. add_submission st1 s = Inr st2 \<and> score_vector st1 p' t' = Some w \<longrightarrow>
              (\<exists>w'. score_vector st2 p' t' = Some w' \<and> length w' = length w \<and>
                 (\<forall>i < length w. w ! i \<le> w' ! i)))"
proof -
  let ?f = "\<lambda>xs. fold (\<lambda>s w. merge_max w (extra s)) xs (replicate n 0)"
  have char: "length (?f xs) = n \<and> (\<forall>i < n. ?f xs ! i = Max (insert 0 ((\<lambda>s. extra s ! i) ` set xs)))"
    if "\<forall>s \<in> set xs. length (extra s) = n" for xs
    using fold_merge_max[of xs "replicate n 0"] that by simp
  from add_submissions_fresh[OF same fresh ne] obtain st' where
    1: "add_submissions st subs = Inr st'" and 2: "score_vector st' p t = Some (?f subs)" by blast
  have c: "length (?f subs) = n" "\<forall>i < n. ?f subs ! i = Max (insert 0 ((\<lambda>s. extra s ! i) ` set subs))"
    using char[of subs] same by simp_all
  have perm: "\<exists>st''. add_submissions st subs' = Inr st'' \<and> score_vector st'' p t = Some (?f subs)"
    if m: "mset subs' = mset subs" for subs'
  proof -
    have set: "set subs' = set subs" using m by (rule mset_eq_setD)
    then have same': "\<forall>s \<in> set subs'. user s = p \<and> task s = t \<and> length (extra s) = n"
      using same by simp
    have ne': "subs' \<noteq> []" using m ne by auto
    from add_submissions_fresh[OF same' fresh ne'] obtain st'' where
      3: "add_submissions st subs' = Inr st''" and 4: "score_vector st'' p t = Some (?f subs')" by blast
    have "?f subs' = ?f subs"
      by (rule nth_equalityI) (use char[of subs'] c same' set in auto)
    then show ?thesis using 3 4 by simp
  qed
  show ?thesis
    using 1 2 c perm add_submission_monotone by blast
qed

text \<open>
  The theorem above at a concrete ledger and two submissions.
\<close>

theorem ledger_componentwise_max_witness:
  "score_vector \<lparr>state = Map.empty, submissions = []\<rparr> ''ann'' ''A'' = None \<and>
   (\<exists>st' v. add_submissions \<lparr>state = Map.empty, submissions = []\<rparr>
       [\<lparr>key = ''k1'', user = ''ann'', task = ''A'', time = 10, extra = [30, 0], score = 30\<rparr>,
        \<lparr>key = ''k2'', user = ''ann'', task = ''A'', time = 20, extra = [10, 40], score = 50\<rparr>] = Inr st' \<and>
      score_vector st' ''ann'' ''A'' = Some v \<and> v = [30, 40])"
proof -
  let ?st = "\<lparr>state = Map.empty, submissions = []\<rparr>"
  let ?subs = "[\<lparr>key = ''k1'', user = ''ann'', task = ''A'', time = 10, extra = [30, 0], score = 30\<rparr>,
        \<lparr>key = ''k2'', user = ''ann'', task = ''A'', time = 20, extra = [10, 40::real], score = 50\<rparr>]"
  have a: "\<forall>s \<in> set ?subs. user s = ''ann'' \<and> task s = ''A'' \<and> length (extra s) = 2" by simp
  have b: "score_vector ?st ''ann'' ''A'' = None" by (simp add: score_vector_def)
  have c: "?subs \<noteq> []" by simp
  from ledger_componentwise_max[OF a b c] obtain st' v where
    1: "add_submissions ?st ?subs = Inr st'" and 2: "score_vector st' ''ann'' ''A'' = Some v" and
    3: "length v = 2" and 4: "\<forall>i < 2. v ! i = Max (insert 0 ((\<lambda>s. extra s ! i) ` set ?subs))"
    by blast
  have "v ! 0 = 30" "v ! 1 = 40" using 4 by simp_all
  then have "v = [30, 40]" using 3 by (intro nth_equalityI) (auto simp: less_Suc_eq numeral_2_eq_2)
  then show ?thesis using 1 2 b by blast
qed

text \<open>
  Without the zero the statement fails where every applied component is negative: the stored component is the
  initial zero, not the maximum of the applied components.
\<close>

theorem ledger_componentwise_max_counterexample:
  "\<not> isl (add_submission \<lparr>state = Map.empty, submissions = []\<rparr>
       \<lparr>key = ''k1'', user = ''ann'', task = ''A'', time = 10, extra = [-1], score = -1\<rparr>) \<and>
   score_vector (projr (add_submission \<lparr>state = Map.empty, submissions = []\<rparr>
       \<lparr>key = ''k1'', user = ''ann'', task = ''A'', time = 10, extra = [-1], score = -1\<rparr>)) ''ann'' ''A''
     = Some [0] \<and>
   Max ((\<lambda>s. extra s ! 0) `
       {\<lparr>key = ''k1'', user = ''ann'', task = ''A'', time = 10, extra = [-1], score = -1\<rparr>}) = (-1 :: real)"
  by (simp add: add_submission_def Let_def score_vector_def)

text \<open>
  Claim C5 (as amended). For a pair that already has a stored vector, a submission with a
  longer component vector raises IndexError; a submission with a shorter one raises nothing:
  its key is recorded, the leading components become the maximum of the stored and the
  incoming value, and the remaining stored components stay as they were.
\<close>

theorem add_submission_length_mismatch:
  assumes "score_vector st (user sub) (task sub) = Some v"
  shows "(length v < length (extra sub) \<longrightarrow> add_submission st sub = Inl IndexError) \<and>
         (length (extra sub) < length v \<longrightarrow>
            (\<exists>st' v'. add_submission st sub = Inr st' \<and> has_submission st' sub \<and>
               score_vector st' (user sub) (task sub) = Some v' \<and> length v' = length v \<and>
               (\<forall>j < length (extra sub). v' ! j = max (v ! j) (extra sub ! j)) \<and>
               (\<forall>j. length (extra sub) \<le> j \<and> j < length v \<longrightarrow> v' ! j = v ! j)))"
proof -
  have sv: "start_vector st sub = v" using assms by (simp add: start_vector_def)
  have long: "add_submission st sub = Inl IndexError" if "length v < length (extra sub)"
  proof (cases "add_submission st sub")
    case (Inl e)
    then show ?thesis using add_submission_Inl by blast
  next
    case (Inr st')
    from add_submission_Inr(1)[OF this] sv that show ?thesis by simp
  qed
  have short: "\<exists>st' v'. add_submission st sub = Inr st' \<and> has_submission st' sub \<and>
               score_vector st' (user sub) (task sub) = Some v' \<and> length v' = length v \<and>
               (\<forall>j < length (extra sub). v' ! j = max (v ! j) (extra sub ! j)) \<and>
               (\<forall>j. length (extra sub) \<le> j \<and> j < length v \<longrightarrow> v' ! j = v ! j)"
    if lt: "length (extra sub) < length v"
  proof -
    have "length (extra sub) \<le> length (start_vector st sub)" using lt sv by simp
    from add_submission_succeeds[OF this] obtain st' where 1: "add_submission st sub = Inr st'" ..
    have 2: "score_vector st' (user sub) (task sub) = Some (merge_max v (extra sub))"
      using add_submission_Inr(2)[OF 1, of "user sub" "task sub"] sv by simp
    have 3: "has_submission st' sub"
      using add_submission_Inr(3)[OF 1] by (simp add: has_submission_def)
    have 4: "\<forall>j < length (extra sub). merge_max v (extra sub) ! j = max (v ! j) (extra sub ! j)"
      using lt by (simp add: nth_merge_max)
    have 5: "\<forall>j. length (extra sub) \<le> j \<and> j < length v \<longrightarrow> merge_max v (extra sub) ! j = v ! j"
      by (simp add: nth_merge_max)
    show ?thesis using 1 2 3 4 5 length_merge_max by blast
  qed
  show ?thesis using long short by blast
qed

text \<open>
  The theorem above at a stored vector of length two, with a longer and a shorter submission.
\<close>

theorem add_submission_length_mismatch_witness:
  "score_vector \<lparr>state = [''ann'' \<mapsto> [''A'' \<mapsto> [5, 5]]], submissions = [''k0'']\<rparr> ''ann'' ''A'' = Some [5, 5] \<and>
   add_submission \<lparr>state = [''ann'' \<mapsto> [''A'' \<mapsto> [5, 5]]], submissions = [''k0'']\<rparr>
     \<lparr>key = ''k1'', user = ''ann'', task = ''A'', time = 10, extra = [7, 1, 1], score = 9\<rparr>
   = Inl IndexError \<and>
   (\<exists>st'. add_submission \<lparr>state = [''ann'' \<mapsto> [''A'' \<mapsto> [5, 5]]], submissions = [''k0'']\<rparr>
     \<lparr>key = ''k2'', user = ''ann'', task = ''A'', time = 11, extra = [7], score = 7\<rparr> = Inr st' \<and>
     has_submission st' \<lparr>key = ''k2'', user = ''ann'', task = ''A'', time = 11, extra = [7], score = 7\<rparr>)"
proof -
  let ?st = "\<lparr>state = [''ann'' \<mapsto> [''A'' \<mapsto> [5, 5::real]]], submissions = [''k0'']\<rparr>"
  let ?long = "\<lparr>key = ''k1'', user = ''ann'', task = ''A'', time = 10, extra = [7, 1, 1::real], score = 9\<rparr>"
  let ?short = "\<lparr>key = ''k2'', user = ''ann'', task = ''A'', time = 11, extra = [7::real], score = 7\<rparr>"
  have h: "score_vector ?st ''ann'' ''A'' = Some [5, 5]" by (simp add: score_vector_def)
  have hl: "score_vector ?st (user ?long) (task ?long) = Some [5, 5]" using h by simp
  have hs: "score_vector ?st (user ?short) (task ?short) = Some [5, 5]" using h by simp
  have a: "add_submission ?st ?long = Inl IndexError"
    using add_submission_length_mismatch[OF hl] by simp
  have b: "\<exists>st'. add_submission ?st ?short = Inr st' \<and> has_submission st' ?short"
    using add_submission_length_mismatch[OF hs] by auto
  show ?thesis using h a b by blast
qed

text \<open>
  A shorter vector is not rejected: the call returns normally with a partial update.
\<close>

theorem add_submission_length_mismatch_counterexample:
  "\<not> isl (add_submission \<lparr>state = [''ann'' \<mapsto> [''A'' \<mapsto> [5, 5]]], submissions = [''k0'']\<rparr>
       \<lparr>key = ''k2'', user = ''ann'', task = ''A'', time = 11, extra = [7], score = 7\<rparr>) \<and>
   score_vector (projr (add_submission \<lparr>state = [''ann'' \<mapsto> [''A'' \<mapsto> [5, 5]]], submissions = [''k0'']\<rparr>
       \<lparr>key = ''k2'', user = ''ann'', task = ''A'', time = 11, extra = [7], score = 7\<rparr>)) ''ann'' ''A''
     = Some [7, 5]"
  by (simp add: add_submission_def Let_def score_vector_def)

section \<open>Properties of the rank engine\<close>

subsection \<open>Rendering and reading integers\<close>

lemma digit_val_digit_char: "d < 10 \<Longrightarrow> digit_val (digit_char d) = d"
proof -
  assume "d < 10"
  then have "d \<in> {0,1,2,3,4,5,6,7,8,9}" by auto
  then show ?thesis by (auto simp: digit_val_def digit_char_def)
qed

lemma is_digit_digit_char: "d < 10 \<Longrightarrow> is_digit (digit_char d)"
proof -
  assume "d < 10"
  then have "d \<in> {0,1,2,3,4,5,6,7,8,9}" by auto
  then show ?thesis by (auto simp: is_digit_def digit_char_def)
qed

lemma str_nat_digits: "str_nat n \<noteq> [] \<and> list_all is_digit (str_nat n)"
proof (induction n rule: str_nat.induct)
  case (1 n)
  show ?case
  proof (cases "n < 10")
    case True
    then show ?thesis by (simp add: str_nat.simps[of n] is_digit_digit_char)
  next
    case False
    then show ?thesis using 1 by (simp add: str_nat.simps[of n] is_digit_digit_char)
  qed
qed

lemma fold_str_nat: "fold (\<lambda>c n. 10 * n + digit_val c) (str_nat n) 0 = n"
proof (induction n rule: str_nat.induct)
  case (1 n)
  show ?case
  proof (cases "n < 10")
    case True
    then show ?thesis by (simp add: str_nat.simps[of n] digit_val_digit_char)
  next
    case False
    then show ?thesis using 1 by (simp add: str_nat.simps[of n] digit_val_digit_char)
  qed
qed

lemma py_int_str_nat: "py_int (str_nat n) = Inr (int n)"
  using str_nat_digits[of n] by (simp add: py_int_def fold_str_nat)

lemma is_digit_not_dash: "is_digit c \<Longrightarrow> c \<noteq> CHR ''-''"
  by (auto simp: is_digit_def)

lemma first_piece_str_nat: "first_piece (str_nat n) = str_nat n"
  using str_nat_digits[of n]
  by (auto simp: first_piece_def list_all_iff dest: is_digit_not_dash)

lemma first_piece_range: "first_piece (str_nat n @ CHR ''-'' # rest) = str_nat n"
  using str_nat_digits[of n]
  by (auto simp: first_piece_def list_all_iff takeWhile_append dest: is_digit_not_dash)

subsection \<open>Grouping and assignment\<close>

lemma people_count_simps:
  "people_count Q [] = 0"
  "people_count Q (g # gs) = (if Q (fst g) then length (snd g) else 0) + people_count Q gs"
  by (simp_all add: people_count_def)

lemma people_count_mset: "mset gs = mset gs' \<Longrightarrow> people_count Q gs = people_count Q gs'"
proof -
  assume m: "mset gs = mset gs'"
  have "mset (filter (\<lambda>g. Q (fst g)) gs) = mset (filter (\<lambda>g. Q (fst g)) gs')"
    using m by simp
  then have "mset (map (\<lambda>g. length (snd g)) (filter (\<lambda>g. Q (fst g)) gs)) =
        mset (map (\<lambda>g. length (snd g)) (filter (\<lambda>g. Q (fst g)) gs'))"
    by (metis mset_map)
  then have "sum_mset (mset (map (\<lambda>g. length (snd g)) (filter (\<lambda>g. Q (fst g)) gs))) =
        sum_mset (mset (map (\<lambda>g. length (snd g)) (filter (\<lambda>g. Q (fst g)) gs')))"
    by (rule arg_cong)
  then show ?thesis unfolding people_count_def sum_mset_sum_list .
qed

lemma map_of_append_id:
  "map_of (append_id t pid gs) t' =
     (if t' = t then Some ((case map_of gs t of None \<Rightarrow> [] | Some p \<Rightarrow> p) @ [pid])
      else map_of gs t')"
  by (induction gs) auto

lemma fst_append_id: "set (map fst (append_id t pid gs)) = insert t (set (map fst gs))"
proof (induction gs)
  case Nil
  then show ?case by simp
next
  case (Cons g gs)
  obtain t' people where g: "g = (t', people)" by (cases g)
  show ?case
  proof (cases "t = t'")
    case True
    then show ?thesis using g by simp
  next
    case False
    then show ?thesis using Cons g by auto
  qed
qed

lemma distinct_append_id:
  "distinct (map fst gs) \<Longrightarrow> distinct (map fst (append_id t pid gs))"
proof (induction gs)
  case Nil
  then show ?case by simp
next
  case (Cons g gs)
  obtain t' people where g: "g = (t', people)" by (cases g)
  show ?case
  proof (cases "t = t'")
    case True
    then show ?thesis using Cons.prems g by simp
  next
    case False
    have "t' \<notin> set (map fst (append_id t pid gs))"
      using Cons.prems g False unfolding fst_append_id by simp
    then show ?thesis using Cons g False by simp
  qed
qed

lemma people_count_append_id:
  "people_count Q (append_id t pid gs) = (if Q t then 1 else 0) + people_count Q gs"
  by (induction gs) (auto simp: people_count_simps)

lemma distinct_group_points:
  "distinct (map fst gs) \<Longrightarrow> distinct (map fst (group_points scs gs))"
  by (induction scs gs rule: group_points.induct) (auto simp: distinct_append_id)

lemma people_count_group_points:
  "people_count Q (group_points scs gs) =
     length (filter (\<lambda>(pid, st). Q (total_score st)) scs) + people_count Q gs"
  by (induction scs gs rule: group_points.induct) (auto simp: people_count_append_id)

lemma map_of_group_points:
  "map_of (group_points scs gs) t =
     (if filter (\<lambda>(pid, st). total_score st = t) scs = [] then map_of gs t
      else Some ((case map_of gs t of None \<Rightarrow> [] | Some p \<Rightarrow> p) @
                 map fst (filter (\<lambda>(pid, st). total_score st = t) scs)))"
proof (induction scs gs rule: group_points.induct)
  case (1 points)
  then show ?case by simp
next
  case (2 pid problem_stats rest points)
  show ?case
    unfolding group_points.simps 2 map_of_append_id
    by (auto split: option.splits)
qed

lemma group_points_member:
  "(t, people) \<in> set (group_points scs []) \<longleftrightarrow>
     people \<noteq> [] \<and> people = map fst (filter (\<lambda>(pid, st). total_score st = t) scs)"
proof -
  have d: "distinct (map fst (group_points scs []))" by (simp add: distinct_group_points)
  have "(t, people) \<in> set (group_points scs []) \<longleftrightarrow> map_of (group_points scs []) t = Some people"
    using d by simp
  then show ?thesis unfolding map_of_group_points by auto
qed

lemma assign_group_eq:
  "assign_group d people pos = (\<lambda>x. if x \<in> set people then Some d else pos x)"
  by (induction people arbitrary: pos) (auto simp: fun_eq_iff)

lemma assign_positions_other:
  "\<forall>g \<in> set gs. pid \<notin> set (snd g) \<Longrightarrow> assign_positions ptr gs pos pid = pos pid"
proof (induction gs arbitrary: ptr pos)
  case Nil
  then show ?case by simp
next
  case (Cons g gs)
  obtain t people where g: "g = (t, people)" by (cases g)
  show ?case using Cons g by (simp add: Let_def assign_group_eq)
qed

lemma dom_assign_group: "dom (assign_group d people pos) = dom pos \<union> set people"
  by (auto simp: assign_group_eq dom_def)

lemma dom_assign_positions:
  "dom (assign_positions ptr gs pos) = dom pos \<union> (\<Union>g \<in> set gs. set (snd g))"
proof (induction gs arbitrary: ptr pos)
  case Nil
  then show ?case by simp
next
  case (Cons g gs)
  obtain t people where g: "g = (t, people)" by (cases g)
  have "dom (assign_positions ptr (g # gs) pos) =
        dom (assign_group (descriptor ptr (length people)) people pos) \<union> (\<Union>g \<in> set gs. set (snd g))"
    unfolding g by (simp add: Let_def Cons)
  then show ?case unfolding dom_assign_group g by auto
qed

lemma assign_positions_lookup:
  assumes "sorted (map (\<lambda>g. - fst g) gs)" and "distinct (map fst gs)"
    and "(t, people) \<in> set gs" and "pid \<in> set people"
    and "\<forall>g \<in> set gs. \<forall>g' \<in> set gs. fst g \<noteq> fst g' \<longrightarrow> set (snd g) \<inter> set (snd g') = {}"
  shows "assign_positions ptr gs pos pid =
           Some (descriptor (ptr + people_count (\<lambda>t'. t' > t) gs) (length people))"
  using assms
proof (induction gs arbitrary: ptr pos)
  case Nil
  then show ?case by simp
next
  case (Cons g gs)
  obtain t0 p0 where g: "g = (t0, p0)" by (cases g)
  have le: "\<forall>g' \<in> set gs. fst g' \<le> t0" using Cons.prems(1) g by auto
  have ne: "\<forall>g' \<in> set gs. fst g' \<noteq> t0" using Cons.prems(2) g by auto
  show ?case
  proof (cases "(t, people) = (t0, p0)")
    case True
    have "\<forall>g' \<in> set gs. pid \<notin> set (snd g')"
    proof
      fix g' assume m: "g' \<in> set gs"
      then have "fst g \<noteq> fst g'" using ne g by auto
      then have "set (snd g) \<inter> set (snd g') = {}" using Cons.prems(5) m by simp
      then show "pid \<notin> set (snd g')" using Cons.prems(4) True g by auto
    qed
    then have a: "assign_positions (ptr + length p0) gs (assign_group (descriptor ptr (length p0)) p0 pos) pid
        = Some (descriptor ptr (length p0))"
      using Cons.prems(4) True by (simp add: assign_positions_other assign_group_eq)
    have "filter (\<lambda>g'. fst g' > t0) gs = []" using le by (auto simp: filter_empty_conv)
    then have "people_count (\<lambda>t'. t' > t0) (g # gs) = 0"
      using g by (simp add: people_count_def)
    then show ?thesis using a True g by (simp add: Let_def)
  next
    case False
    then have m: "(t, people) \<in> set gs" using Cons.prems(3) g by auto
    then have lt: "t < t0" using le ne by fastforce
    have s: "sorted (map (\<lambda>g. - fst g) gs)" and d: "distinct (map fst gs)"
      using Cons.prems(1,2) by simp_all
    have dj: "\<forall>g \<in> set gs. \<forall>g' \<in> set gs. fst g \<noteq> fst g' \<longrightarrow> set (snd g) \<inter> set (snd g') = {}"
      using Cons.prems(5) by simp
    have "assign_positions (ptr + length p0) gs (assign_group (descriptor ptr (length p0)) p0 pos) pid =
        Some (descriptor (ptr + length p0 + people_count (\<lambda>t'. t' > t) gs) (length people))"
      by (rule Cons.IH[OF s d m Cons.prems(4) dj])
    then show ?thesis using g lt by (simp add: Let_def people_count_simps add.assoc)
  qed
qed

subsection \<open>Rank ranges\<close>

lemma length_filter_mset:
  "mset xs = mset ys \<Longrightarrow> length (filter P xs) = length (filter P ys)"
proof -
  assume "mset xs = mset ys"
  then have "mset (filter P xs) = mset (filter P ys)" by simp
  then show ?thesis by (rule mset_eq_length)
qed

lemma length_filter_mono:
  "(\<And>x. x \<in> set xs \<Longrightarrow> P x \<Longrightarrow> Q x) \<Longrightarrow> length (filter P xs) \<le> length (filter Q xs)"
  by (induction xs) auto

lemma sorted_count_gt:
  fixes xs :: "real list"
  assumes "sorted xs" and "i < length xs"
  shows "length (filter (\<lambda>x. x > xs ! i) xs) \<le> length xs - Suc i"
proof -
  have split: "xs = take (Suc i) xs @ drop (Suc i) xs" by simp
  have "\<forall>x \<in> set (take (Suc i) xs). x \<le> xs ! i"
  proof
    fix x assume "x \<in> set (take (Suc i) xs)"
    then obtain j where j: "j < Suc i" "j < length xs" "x = xs ! j"
      by (auto simp: in_set_conv_nth)
    then show "x \<le> xs ! i" using assms by (auto intro: sorted_nth_mono)
  qed
  then have "filter (\<lambda>x. x > xs ! i) (take (Suc i) xs) = []"
    by (auto simp: filter_empty_conv)
  then have "filter (\<lambda>x. x > xs ! i) xs = filter (\<lambda>x. x > xs ! i) (drop (Suc i) xs)"
    using split by (metis append_Nil filter_append)
  then have "length (filter (\<lambda>x. x > xs ! i) xs) \<le> length (drop (Suc i) xs)"
    by (metis length_filter_le)
  then show ?thesis by simp
qed

lemma sorted_count_ge:
  fixes xs :: "real list"
  assumes "sorted xs" and "i < length xs"
  shows "length xs - i \<le> length (filter (\<lambda>x. x \<ge> xs ! i) xs)"
proof -
  have split: "xs = take i xs @ drop i xs" by simp
  have "\<forall>x \<in> set (drop i xs). xs ! i \<le> x"
  proof
    fix x assume "x \<in> set (drop i xs)"
    then obtain j where j: "j < length xs - i" "x = xs ! (i + j)"
      by (auto simp: in_set_conv_nth)
    then show "xs ! i \<le> x" using assms by (auto intro: sorted_nth_mono)
  qed
  then have "filter (\<lambda>x. x \<ge> xs ! i) (drop i xs) = drop i xs"
    by (auto simp: filter_id_conv)
  then have "length (filter (\<lambda>x. x \<ge> xs ! i) xs) =
      length (filter (\<lambda>x. x \<ge> xs ! i) (take i xs)) + length (drop i xs)"
    using split by (metis filter_append length_append)
  then show ?thesis by simp
qed

lemma count_above_totals: "count_above scores t = length (filter (\<lambda>x. x > t) (totals scores))"
  by (simp add: count_above_def totals_def filter_map comp_def case_prod_unfold)

lemma count_tied_totals: "count_tied scores t = length (filter (\<lambda>x. x = t) (totals scores))"
  by (simp add: count_tied_def totals_def filter_map comp_def case_prod_unfold)

lemma count_ge_split:
  fixes t :: real
  shows "length (filter (\<lambda>x. x > t) xs) + length (filter (\<lambda>x. x = t) xs) =
         length (filter (\<lambda>x. x \<ge> t) xs)"
  by (induction xs) auto

lemma rank_hi_totals:
  "rank_hi scores st = length (filter (\<lambda>x. x \<ge> total_score st) (totals scores))"
  by (simp add: rank_hi_def count_above_totals count_tied_totals count_ge_split)

lemma count_tied_pos: "(pid, st) \<in> set scores \<Longrightarrow> 1 \<le> count_tied scores (total_score st)"
proof -
  assume "(pid, st) \<in> set scores"
  then have "(pid, st) \<in> set (filter (\<lambda>(pid, st'). total_score st' = total_score st) scores)"
    by simp
  then have "filter (\<lambda>(pid, st'). total_score st' = total_score st) scores \<noteq> []"
    by (metis empty_iff empty_set)
  then show ?thesis by (simp add: count_tied_def Suc_le_eq)
qed

lemma rank_bounds:
  assumes "(pid, st) \<in> set scores"
  shows "1 \<le> rank_lo scores st" and "rank_lo scores st \<le> rank_hi scores st"
    and "rank_hi scores st \<le> length scores"
proof -
  show "1 \<le> rank_lo scores st" by (simp add: rank_lo_def)
  show "rank_lo scores st \<le> rank_hi scores st"
    using count_tied_pos[OF assms] by (simp add: rank_lo_def rank_hi_def)
  have "length (filter (\<lambda>x. x \<ge> total_score st) (totals scores)) \<le> length (totals scores)"
    by (rule length_filter_le)
  then show "rank_hi scores st \<le> length scores" by (simp add: rank_hi_totals totals_def)
qed

lemma rank_order:
  assumes "total_score st' < total_score st"
  shows "rank_hi scores st < rank_lo scores st'"
proof -
  have "length (filter (\<lambda>x. x \<ge> total_score st) (totals scores)) \<le>
        length (filter (\<lambda>x. x > total_score st') (totals scores))"
    using assms by (intro length_filter_mono) auto
  then show ?thesis by (simp add: rank_hi_totals rank_lo_def count_above_totals)
qed

lemma rank_cover:
  assumes "1 \<le> k" and "k \<le> length scores"
  shows "\<exists>(pid, st) \<in> set scores. rank_lo scores st \<le> k \<and> k \<le> rank_hi scores st"
proof -
  let ?ts = "sort (totals scores)"
  let ?i = "length scores - k"
  have len: "length ?ts = length scores" by (simp add: totals_def)
  have i: "?i < length ?ts" using assms len by simp
  have m: "mset ?ts = mset (totals scores)" by simp
  have "?ts ! ?i \<in> set ?ts" using i by (rule nth_mem)
  then have "?ts ! ?i \<in> set (totals scores)" by simp
  then obtain pid st where mem: "(pid, st) \<in> set scores" and t: "total_score st = ?ts ! ?i"
    by (auto simp: totals_def)
  have "length (filter (\<lambda>x. x > ?ts ! ?i) ?ts) \<le> length ?ts - Suc ?i"
    by (rule sorted_count_gt) (use i in simp_all)
  then have "count_above scores (total_score st) \<le> length scores - Suc ?i"
    unfolding count_above_totals t length_filter_mset[OF m, symmetric] len .
  then have lo: "rank_lo scores st \<le> k" using assms by (simp add: rank_lo_def)
  have "length ?ts - ?i \<le> length (filter (\<lambda>x. x \<ge> ?ts ! ?i) ?ts)"
    by (rule sorted_count_ge) (use i in simp_all)
  then have "length scores - ?i \<le> rank_hi scores st"
    unfolding rank_hi_totals t length_filter_mset[OF m, symmetric] len .
  then have hi: "k \<le> rank_hi scores st" using assms by simp
  show ?thesis using mem lo hi by blast
qed

lemma rank_union:
  "(\<Union>(pid, st) \<in> set scores. {rank_lo scores st .. rank_hi scores st}) = {1 .. length scores}"
proof (intro equalityI subsetI)
  fix k assume "k \<in> (\<Union>(pid, st) \<in> set scores. {rank_lo scores st .. rank_hi scores st})"
  then obtain pid st where m: "(pid, st) \<in> set scores" and k: "rank_lo scores st \<le> k" "k \<le> rank_hi scores st"
    by auto
  from rank_bounds[OF m] k show "k \<in> {1 .. length scores}" by simp
next
  fix k assume "k \<in> {1 .. length scores}"
  then have "1 \<le> k" "k \<le> length scores" by simp_all
  from rank_cover[OF this] obtain pid st where
    "(pid, st) \<in> set scores" "rank_lo scores st \<le> k" "k \<le> rank_hi scores st" by auto
  then show "k \<in> (\<Union>(pid, st) \<in> set scores. {rank_lo scores st .. rank_hi scores st})"
    by force
qed

subsection \<open>The snapshot the constructor computes\<close>

lemma group_people_disjoint:
  assumes d: "distinct (map fst scores)"
    and g: "g \<in> set (group_points scores [])" and g': "g' \<in> set (group_points scores [])"
    and ne: "fst g \<noteq> fst g'"
  shows "set (snd g) \<inter> set (snd g') = {}"
proof -
  have a: "snd g = map fst (filter (\<lambda>(pid, st). total_score st = fst g) scores)"
    using g group_points_member[of "fst g" "snd g" scores] by simp
  have b: "snd g' = map fst (filter (\<lambda>(pid, st). total_score st = fst g') scores)"
    using g' group_points_member[of "fst g'" "snd g'" scores] by simp
  show ?thesis
  proof (rule ccontr)
    assume "set (snd g) \<inter> set (snd g') \<noteq> {}"
    then obtain x where x: "x \<in> set (snd g)" "x \<in> set (snd g')" by auto
    from x(1) a obtain st where 1: "(x, st) \<in> set scores" "total_score st = fst g" by auto
    from x(2) b obtain st' where 2: "(x, st') \<in> set scores" "total_score st' = fst g'" by auto
    have "st = st'" using d 1(1) 2(1) by (rule eq_key_imp_eq_value)
    then show False using 1 2 ne by simp
  qed
qed

lemma positions_init:
  assumes d: "distinct (map fst scores)" and m: "(pid, st) \<in> set scores"
  shows "positions (Scoreboard_init (Some scores) old) pid =
           Some (descriptor (count_above scores (total_score st)) (count_tied scores (total_score st)))"
proof -
  let ?t = "total_score st"
  let ?groups = "group_points scores []"
  let ?sg = "sort_key (\<lambda>g. - fst g) ?groups"
  let ?people = "map fst (filter (\<lambda>(pid, st'). total_score st' = ?t) scores)"
  have key: "(\<lambda>(pts, people). - pts) = (\<lambda>g :: real \<times> string list. - fst g)"
    by (simp add: case_prod_unfold)
  have ne: "scores \<noteq> []" using m by auto
  have pos: "positions (Scoreboard_init (Some scores) old) = assign_positions 0 ?sg Map.empty"
    using ne by (simp add: Scoreboard_init_def key)
  have s: "sorted (map (\<lambda>g. - fst g) ?sg)" by (rule sorted_sort_key)
  have "mset (map fst ?sg) = mset (map fst ?groups)" by simp
  moreover have "distinct (map fst ?groups)" by (simp add: distinct_group_points)
  ultimately have dk: "distinct (map fst ?sg)" by (metis mset_eq_imp_distinct_iff)
  have inf: "(pid, st) \<in> set (filter (\<lambda>(pid, st'). total_score st' = ?t) scores)"
    using m by simp
  then have pin: "pid \<in> set ?people" by force
  from length_pos_if_in_set[OF pin] have "?people \<noteq> []" by (metis length_greater_0_conv)
  then have "(?t, ?people) \<in> set ?groups" by (simp add: group_points_member)
  then have gin: "(?t, ?people) \<in> set ?sg" by simp
  have dj: "\<forall>g \<in> set ?sg. \<forall>g' \<in> set ?sg. fst g \<noteq> fst g' \<longrightarrow> set (snd g) \<inter> set (snd g') = {}"
    using group_people_disjoint[OF d] by simp
  have "people_count (\<lambda>t'. t' > ?t) ?sg = people_count (\<lambda>t'. t' > ?t) ?groups"
    by (rule people_count_mset) simp
  also have "\<dots> = count_above scores ?t"
    by (simp add: people_count_group_points people_count_simps count_above_def)
  finally have pc: "people_count (\<lambda>t'. t' > ?t) ?sg = count_above scores ?t" .
  have ln: "length ?people = count_tied scores ?t" by (simp add: count_tied_def)
  show ?thesis
    unfolding pos assign_positions_lookup[OF s dk gin pin dj, of 0 Map.empty] pc ln by simp
qed

lemma dom_positions_init:
  assumes "scores \<noteq> []"
  shows "dom (positions (Scoreboard_init (Some scores) old)) = fst ` set scores"
proof -
  let ?groups = "group_points scores []"
  have key: "(\<lambda>(pts, people). - pts) = (\<lambda>g :: real \<times> string list. - fst g)"
    by (simp add: case_prod_unfold)
  have pos: "positions (Scoreboard_init (Some scores) old) =
      assign_positions 0 (sort_key (\<lambda>g. - fst g) ?groups) Map.empty"
    using assms by (simp add: Scoreboard_init_def key)
  have "(\<Union>g \<in> set ?groups. set (snd g)) = fst ` set scores"
  proof (intro equalityI subsetI)
    fix x assume "x \<in> (\<Union>g \<in> set ?groups. set (snd g))"
    then obtain t people where g: "(t, people) \<in> set ?groups" "x \<in> set people" by auto
    then have "people = map fst (filter (\<lambda>(pid, st). total_score st = t) scores)"
      by (simp add: group_points_member)
    then show "x \<in> fst ` set scores" using g(2) by auto
  next
    fix x assume "x \<in> fst ` set scores"
    then obtain st where m: "(x, st) \<in> set scores" by auto
    let ?people = "map fst (filter (\<lambda>(pid, st'). total_score st' = total_score st) scores)"
    have "(x, st) \<in> set (filter (\<lambda>(pid, st'). total_score st' = total_score st) scores)"
      using m by simp
    then have pin: "x \<in> set ?people" by force
    from length_pos_if_in_set[OF pin] have "?people \<noteq> []" by (metis length_greater_0_conv)
    then have "(total_score st, ?people) \<in> set ?groups" by (simp add: group_points_member)
    then show "x \<in> (\<Union>g \<in> set ?groups. set (snd g))" using pin by force
  qed
  then show ?thesis unfolding pos dom_assign_positions by simp
qed

text \<open>
  Claim C3. For a non-empty score map (its keys are distinct), the engine is OK and every
  participant, and nobody else, gets a descriptor. The descriptor of a participant is the
  single number \<open>rank_lo\<close> when nobody else has the same total, and the range
  \<open>rank_lo-rank_hi\<close> when the group of that total has more than one member; the width of
  the range is the size of the group. The ranges of all participants cover exactly
  \<open>{1..N}\<close>; a greater total has a range entirely before that of a smaller total (so
  ranges of different groups do not overlap and the groups are in strictly descending order
  of total), and equal totals have the same range.
\<close>

theorem rank_partition:
  assumes "distinct (map fst scores)" and "scores \<noteq> []"
  shows "ok (Scoreboard_init (Some scores) old) \<and>
    dom (positions (Scoreboard_init (Some scores) old)) = fst ` set scores \<and>
    (\<forall>(pid, st) \<in> set scores.
       positions (Scoreboard_init (Some scores) old) pid =
         Some (if count_tied scores (total_score st) > 1
               then str_nat (rank_lo scores st) @ ''-'' @ str_nat (rank_hi scores st)
               else str_nat (rank_lo scores st)) \<and>
       1 \<le> count_tied scores (total_score st) \<and>
       rank_hi scores st + 1 - rank_lo scores st = count_tied scores (total_score st)) \<and>
    (\<Union>(pid, st) \<in> set scores. {rank_lo scores st .. rank_hi scores st}) = {1 .. length scores} \<and>
    (\<forall>(pid, st) \<in> set scores. \<forall>(pid', st') \<in> set scores.
       (total_score st' < total_score st \<longrightarrow> rank_hi scores st < rank_lo scores st') \<and>
       (total_score st' = total_score st \<longrightarrow>
          rank_lo scores st' = rank_lo scores st \<and> rank_hi scores st' = rank_hi scores st))"
proof -
  have 1: "ok (Scoreboard_init (Some scores) old)"
    using assms(2) by (simp add: Scoreboard_init_def)
  have 3: "\<forall>(pid, st) \<in> set scores.
       positions (Scoreboard_init (Some scores) old) pid =
         Some (if count_tied scores (total_score st) > 1
               then str_nat (rank_lo scores st) @ ''-'' @ str_nat (rank_hi scores st)
               else str_nat (rank_lo scores st)) \<and>
       1 \<le> count_tied scores (total_score st) \<and>
       rank_hi scores st + 1 - rank_lo scores st = count_tied scores (total_score st)"
  proof (intro ballI, clarify)
    fix pid st assume m: "(pid, st) \<in> set scores"
    have "positions (Scoreboard_init (Some scores) old) pid =
         Some (if count_tied scores (total_score st) > 1
               then str_nat (rank_lo scores st) @ ''-'' @ str_nat (rank_hi scores st)
               else str_nat (rank_lo scores st))"
      unfolding positions_init[OF assms(1) m] by (simp add: descriptor_def rank_lo_def rank_hi_def)
    moreover have "1 \<le> count_tied scores (total_score st)" using m by (rule count_tied_pos)
    moreover have "rank_hi scores st + 1 - rank_lo scores st = count_tied scores (total_score st)"
      by (simp add: rank_lo_def rank_hi_def)
    ultimately show "positions (Scoreboard_init (Some scores) old) pid =
         Some (if count_tied scores (total_score st) > 1
               then str_nat (rank_lo scores st) @ ''-'' @ str_nat (rank_hi scores st)
               else str_nat (rank_lo scores st)) \<and>
       1 \<le> count_tied scores (total_score st) \<and>
       rank_hi scores st + 1 - rank_lo scores st = count_tied scores (total_score st)"
      by blast
  qed
  have 5: "\<forall>(pid, st) \<in> set scores. \<forall>(pid', st') \<in> set scores.
       (total_score st' < total_score st \<longrightarrow> rank_hi scores st < rank_lo scores st') \<and>
       (total_score st' = total_score st \<longrightarrow>
          rank_lo scores st' = rank_lo scores st \<and> rank_hi scores st' = rank_hi scores st)"
    by (auto simp: rank_order) (simp_all add: rank_lo_def rank_hi_def)
  have 2: "dom (positions (Scoreboard_init (Some scores) old)) = fst ` set scores"
    using assms(2) by (rule dom_positions_init)
  have 4: "(\<Union>(pid, st) \<in> set scores. {rank_lo scores st .. rank_hi scores st}) = {1 .. length scores}"
    by (rule rank_union)
  show ?thesis
    by (intro conjI 1 2 3 4 5)
qed

text \<open>
  Two participants tied at 50 and one at 30.
\<close>

theorem rank_partition_witness:
  "distinct (map fst [(''a'', [(''p'', 50)]), (''b'', [(''p'', 20), (''q'', 30)]), (''c'', [(''p'', 30::real)])]) \<and>
   positions (Scoreboard_init
      (Some [(''a'', [(''p'', 50)]), (''b'', [(''p'', 20), (''q'', 30)]), (''c'', [(''p'', 30)])]) Map.empty) ''a''
     = Some ''1-2'' \<and>
   positions (Scoreboard_init
      (Some [(''a'', [(''p'', 50)]), (''b'', [(''p'', 20), (''q'', 30)]), (''c'', [(''p'', 30)])]) Map.empty) ''b''
     = Some ''1-2'' \<and>
   positions (Scoreboard_init
      (Some [(''a'', [(''p'', 50)]), (''b'', [(''p'', 20), (''q'', 30)]), (''c'', [(''p'', 30)])]) Map.empty) ''c''
     = Some ''3''"
proof -
  let ?scores = "[(''a'', [(''p'', 50)]), (''b'', [(''p'', 20), (''q'', 30)]), (''c'', [(''p'', 30::real)])]"
  have d: "distinct (map fst ?scores)" by simp
  have ne: "?scores \<noteq> []" by simp
  note r = rank_partition[OF d ne, of Map.empty, THEN conjunct2, THEN conjunct2, THEN conjunct1]
  have a: "positions (Scoreboard_init (Some ?scores) Map.empty) ''a'' = Some ''1-2''"
    using r by (simp add: count_tied_def count_above_def rank_lo_def rank_hi_def total_score_def
        str_nat.simps digit_char_def)
  have b: "positions (Scoreboard_init (Some ?scores) Map.empty) ''b'' = Some ''1-2''"
    using r by (simp add: count_tied_def count_above_def rank_lo_def rank_hi_def total_score_def
        str_nat.simps digit_char_def)
  have c: "positions (Scoreboard_init (Some ?scores) Map.empty) ''c'' = Some ''3''"
    using r by (simp add: count_tied_def count_above_def rank_lo_def rank_hi_def total_score_def
        str_nat.simps digit_char_def)
  show ?thesis using d a b c by blast
qed

text \<open>
  Claim C7. When the score map is absent or empty the engine is not OK, and
  \<open>get_result\<close> returns the empty movement symbol with the descriptor \<open>?\<close> for every
  participant, without an exception.
\<close>

theorem degenerate_scores_not_ok:
  assumes "scores = None \<or> scores = Some []"
  shows "\<not> ok (Scoreboard_init scores old) \<and>
         (\<forall>pid. get_result (Scoreboard_init scores old) pid = Inr ('''', ''?''))"
  using assms by (auto simp: Scoreboard_init_def get_result_def)

text \<open>
  Both degenerate inputs, with a previous snapshot that would otherwise be compared.
\<close>

theorem degenerate_scores_not_ok_witness:
  "get_result (Scoreboard_init None [''ann'' \<mapsto> ''2'']) ''ann'' = Inr ('''', ''?'') \<and>
   get_result (Scoreboard_init (Some []) [''ann'' \<mapsto> ''2'']) ''bob'' = Inr ('''', ''?'')"
proof -
  have a: "(None :: (string \<times> (string \<times> real) list) list option) = None \<or> None = Some []" by simp
  have b: "Some ([] :: (string \<times> (string \<times> real) list) list) = None \<or>
           Some ([] :: (string \<times> (string \<times> real) list) list) = Some []" by simp
  from degenerate_scores_not_ok[OF a, of "[''ann'' \<mapsto> ''2'']"]
       degenerate_scores_not_ok[OF b, of "[''ann'' \<mapsto> ''2'']"]
  show ?thesis by blast
qed

text \<open>
  Claim C10. In the OK state, \<open>get_result\<close> for an identifier that is not a key of the
  score map raises KeyError (the lookup \<^verbatim>\<open>self.positions[id]\<close> is not guarded); so
  whenever it returns normally the identifier is a key of the score map.
\<close>

theorem get_result_absent_raises:
  assumes "scores \<noteq> []" and "pid \<notin> fst ` set scores"
  shows "ok (Scoreboard_init (Some scores) old) \<and>
         get_result (Scoreboard_init (Some scores) old) pid = Inl KeyError \<and>
         (\<forall>p r. get_result (Scoreboard_init (Some scores) old) p = Inr r \<longrightarrow> p \<in> fst ` set scores)"
proof -
  let ?sb = "Scoreboard_init (Some scores) old"
  have ok: "ok ?sb" and op: "old_positions ?sb = Some old"
    using assms(1) by (simp_all add: Scoreboard_init_def)
  have dom: "dom (positions ?sb) = fst ` set scores" using assms(1) by (rule dom_positions_init)
  have absent: "get_result ?sb p = Inl KeyError" if "p \<notin> fst ` set scores" for p
  proof -
    have "positions ?sb p = None" using that dom by blast
    then show ?thesis using ok op by (simp add: get_result_def)
  qed
  have "\<forall>p r. get_result ?sb p = Inr r \<longrightarrow> p \<in> fst ` set scores"
    using absent by force
  then show ?thesis using ok absent[OF assms(2)] by blast
qed

text \<open>
  A participant of the configuration who is missing from the fetched scores.
\<close>

theorem get_result_absent_raises_witness:
  "[(''a'', [(''p'', 50::real)])] \<noteq> [] \<and> ''zed'' \<notin> fst ` set [(''a'', [(''p'', 50::real)])] \<and>
   get_result (Scoreboard_init (Some [(''a'', [(''p'', 50)])]) Map.empty) ''zed'' = Inl KeyError"
proof -
  have a: "[(''a'', [(''p'', 50::real)])] \<noteq> []" by simp
  have b: "''zed'' \<notin> fst ` set [(''a'', [(''p'', 50::real)])]" by simp
  from get_result_absent_raises[OF a b, of Map.empty] a b show ?thesis by blast
qed

subsection \<open>Movement\<close>

lemma descriptor_low_bound: "py_int (first_piece (descriptor ptr len)) = Inr (int ptr + 1)"
  by (simp add: descriptor_def first_piece_str_nat first_piece_range py_int_str_nat)

lemma descriptor_not_unknown: "descriptor ptr len \<noteq> ''?''"
proof
  assume "descriptor ptr len = ''?''"
  then have "py_int (first_piece (descriptor ptr len)) = py_int (first_piece ''?'')" by simp
  then show False
    unfolding descriptor_low_bound by (simp add: first_piece_def py_int_def is_digit_def)
qed

text \<open>
  Claim C6. Let the engine be OK and the current descriptor of a participant be the one the
  engine renders for a group starting after \<open>b\<close> participants. Without an entry in the
  previous snapshot the result is the empty symbol with the current descriptor. With a
  previous descriptor rendered for a group starting after \<open>a\<close> participants, the numbers
  compared are the low bounds \<open>a + 1\<close> and \<open>b + 1\<close>: a lower current low bound gives
  the up arrow, a higher one the down arrow, equal ones the empty symbol, always with the
  current descriptor.
\<close>

theorem get_result_movement:
  assumes "ok sb" and "old_positions sb = Some old"
    and "positions sb pid = Some (descriptor b n)"
  shows "(old pid = None \<longrightarrow> get_result sb pid = Inr ('''', descriptor b n)) \<and>
         (\<forall>a m. old pid = Some (descriptor a m) \<longrightarrow>
            py_int (first_piece (descriptor a m)) = Inr (int a + 1) \<and>
            py_int (first_piece (descriptor b n)) = Inr (int b + 1) \<and>
            get_result sb pid =
              Inr (if int b + 1 < int a + 1 then up_arrow
                   else if int a + 1 < int b + 1 then down_arrow else '''', descriptor b n))"
  using assms
  by (auto simp: get_result_def descriptor_low_bound descriptor_not_unknown)

text \<open>
  A participant moving from 3 to the tie 1-2, and a new entrant.
\<close>

theorem get_result_movement_witness:
  "get_result \<lparr>positions = [''a'' \<mapsto> ''1-2'', ''b'' \<mapsto> ''3''], ok = True,
       old_positions = Some [''a'' \<mapsto> ''3'']\<rparr> ''a'' = Inr (up_arrow, ''1-2'') \<and>
   get_result \<lparr>positions = [''a'' \<mapsto> ''1-2'', ''b'' \<mapsto> ''3''], ok = True,
       old_positions = Some [''a'' \<mapsto> ''3'']\<rparr> ''b'' = Inr ('''', ''3'')"
proof -
  let ?sb = "\<lparr>positions = [''a'' \<mapsto> ''1-2'', ''b'' \<mapsto> ''3''], ok = True,
       old_positions = Some [''a'' \<mapsto> ''3'']\<rparr>"
  have d12: "descriptor 0 2 = ''1-2''" and d3: "descriptor 2 1 = ''3''"
    by (simp_all add: descriptor_def str_nat.simps digit_char_def)
  have ok: "ok ?sb" and op: "old_positions ?sb = Some [''a'' \<mapsto> ''3'']" by simp_all
  have pa: "positions ?sb ''a'' = Some (descriptor 0 2)" by (simp add: d12)
  have pb: "positions ?sb ''b'' = Some (descriptor 2 1)" unfolding d3 by simp
  have oa: "[''a'' \<mapsto> ''3''] ''a'' = Some (descriptor 2 1)" unfolding d3 by simp
  have ob: "[''a'' \<mapsto> ''3''] ''b'' = None" by simp
  have "get_result ?sb ''a'' = Inr (up_arrow, descriptor 0 2)"
    using get_result_movement[OF ok op pa] oa by fastforce
  moreover have "get_result ?sb ''b'' = Inr ('''', descriptor 2 1)"
    using get_result_movement[OF ok op pb] ob by blast
  ultimately show ?thesis unfolding d12 d3 by simp
qed

section \<open>Properties of the leaderboard\<close>

lemma get_result_ok_position:
  "ok sb \<Longrightarrow> get_result sb pid = Inr (diff, result) \<Longrightarrow> positions sb pid = Some result"
  by (auto simp: get_result_def Let_def split: option.splits if_splits sum.splits)

lemma get_result_not_ok: "\<not> ok sb \<Longrightarrow> get_result sb pid = Inr ('''', ''?'')"
  by (simp add: get_result_def)

lemma build_lines_map:
  "build_lines line sb ps = Inr b \<Longrightarrow>
   b = map (\<lambda>p. case projr (get_result sb (login p)) of (diff, result) \<Rightarrow> (line p diff result, result)) ps"
  by (induction ps arbitrary: b) (auto split: sum.splits)

lemma build_lines_results:
  "build_lines line sb ps = Inr b \<Longrightarrow> x \<in> set b \<Longrightarrow>
   \<exists>p \<in> set ps. \<exists>diff. get_result sb (login p) = Inr (diff, snd x)"
proof (induction ps arbitrary: b)
  case Nil
  then show ?case by simp
next
  case (Cons p ps)
  then show ?case by (fastforce split: sum.splits)
qed

lemma init_result_descriptor:
  assumes d: "distinct (map fst (case scores of None \<Rightarrow> [] | Some s \<Rightarrow> s))"
    and g: "get_result (Scoreboard_init scores old) pid = Inr (diff, result)"
    and q: "result \<noteq> ''?''"
  shows "\<exists>ptr len. result = descriptor ptr len"
proof -
  let ?sb = "Scoreboard_init scores old"
  have ok: "ok ?sb" using g q by (cases "ok ?sb") (auto simp: get_result_not_ok)
  then obtain s where s: "scores = Some s" "s \<noteq> []"
    by (cases scores) (auto simp: Scoreboard_init_def split: if_splits)
  have p: "positions ?sb pid = Some result" using ok g by (rule get_result_ok_position)
  then have "pid \<in> dom (positions ?sb)" by auto
  then have "pid \<in> fst ` set s" using dom_positions_init[OF s(2), of old] s(1) by simp
  then obtain st where m: "(pid, st) \<in> set s" by auto
  have "distinct (map fst s)" using d s(1) by simp
  from positions_init[OF this m, of old] p s(1) show ?thesis by auto
qed

lemma sort_lines_unknown: "\<exists>x \<in> set b. snd x = ''?'' \<Longrightarrow> sort_lines b = Inr b"
  by (auto simp: sort_lines_def list_ex_iff)

lemma sort_lines_descriptors:
  assumes "\<forall>x \<in> set b. \<exists>ptr len. snd x = descriptor ptr len"
  shows "sort_lines b = Inr (sort_key (\<lambda>x. projr (py_int (first_piece (snd x)))) b)"
proof -
  have "\<forall>x \<in> set b. snd x \<noteq> ''?''" using assms descriptor_not_unknown by metis
  moreover have "\<forall>x \<in> set b. \<not> isl (py_int (first_piece (snd x)))"
    using assms descriptor_low_bound by fastforce
  ultimately show ?thesis by (simp add: sort_lines_def list_ex_iff list_all_iff)
qed

text \<open>
  Claim C8. Let the loop over the configured participants complete with the lines \<open>b\<close>
  (one per participant, in the configured order), for an engine built from a score map with
  distinct keys. If some line carries the descriptor \<open>?\<close>, the leaderboard is \<open>b\<close>
  itself, in the configured order. Otherwise every line carries a descriptor the engine
  rendered, whose numeric low bound the sort key reads back, and the leaderboard is a
  rearrangement of \<open>b\<close> that is ascending in that low bound.
\<close>

theorem leaderboard_order:
  assumes "distinct (map fst (case scores of None \<Rightarrow> [] | Some s \<Rightarrow> s))"
    and "build_lines line (Scoreboard_init scores old) participants = Inr b"
  shows "b = map (\<lambda>p. case projr (get_result (Scoreboard_init scores old) (login p)) of
                        (diff, result) \<Rightarrow> (line p diff result, result)) participants \<and>
         ((\<exists>x \<in> set b. snd x = ''?'') \<longrightarrow>
            leaderboard line (Scoreboard_init scores old) participants = Inr b) \<and>
         (\<not> (\<exists>x \<in> set b. snd x = ''?'') \<longrightarrow>
            (\<forall>x \<in> set b. \<exists>ptr len. snd x = descriptor ptr len \<and>
                projr (py_int (first_piece (snd x))) = int ptr + 1) \<and>
            (\<exists>b'. leaderboard line (Scoreboard_init scores old) participants = Inr b' \<and>
                mset b' = mset b \<and>
                sorted (map (\<lambda>x. projr (py_int (first_piece (snd x)))) b')))"
proof -
  let ?sb = "Scoreboard_init scores old"
  let ?k = "\<lambda>x :: string \<times> string. projr (py_int (first_piece (snd x)))"
  have 1: "b = map (\<lambda>p. case projr (get_result ?sb (login p)) of
                        (diff, result) \<Rightarrow> (line p diff result, result)) participants"
    using assms(2) by (rule build_lines_map)
  have 2: "leaderboard line ?sb participants = Inr b" if "\<exists>x \<in> set b. snd x = ''?''"
    using assms(2) sort_lines_unknown[OF that] by (simp add: leaderboard_def)
  have 3: "(\<forall>x \<in> set b. \<exists>ptr len. snd x = descriptor ptr len \<and> ?k x = int ptr + 1) \<and>
           (\<exists>b'. leaderboard line ?sb participants = Inr b' \<and> mset b' = mset b \<and> sorted (map ?k b'))"
    if nq: "\<not> (\<exists>x \<in> set b. snd x = ''?'')"
  proof -
    have d: "\<forall>x \<in> set b. \<exists>ptr len. snd x = descriptor ptr len"
    proof
      fix x assume x: "x \<in> set b"
      from build_lines_results[OF assms(2) x] obtain p :: participant and diff where
        g: "get_result ?sb (login p) = Inr (diff, snd x)" by blast
      have "snd x \<noteq> ''?''" using nq x by blast
      from init_result_descriptor[OF assms(1) g this]
      show "\<exists>ptr len. snd x = descriptor ptr len" .
    qed
    then have a: "\<forall>x \<in> set b. \<exists>ptr len. snd x = descriptor ptr len \<and> ?k x = int ptr + 1"
      using descriptor_low_bound by fastforce
    have "leaderboard line ?sb participants = Inr (sort_key ?k b)"
      using assms(2) sort_lines_descriptors[OF d] by (simp add: leaderboard_def)
    moreover have "mset (sort_key ?k b) = mset b" by simp
    moreover have "sorted (map ?k (sort_key ?k b))" by (rule sorted_sort_key)
    ultimately show ?thesis using a by blast
  qed
  show ?thesis using 1 2 3 by blast
qed

text \<open>
  Three participants configured in the order a, b, c, with c in front of the tie of a and b;
  and the same participants when the fetch failed.
\<close>

theorem leaderboard_order_witness:
  "build_lines (\<lambda>p diff result. ''['' @ diff @ result @ ''] '' @ name p)
     (Scoreboard_init (Some [(''a'', [(''p'', 50)]), (''b'', [(''p'', 20), (''q'', 30)]), (''c'', [(''p'', 60)])]) Map.empty)
     [\<lparr>login = ''a'', name = ''Al''\<rparr>, \<lparr>login = ''b'', name = ''Bo''\<rparr>, \<lparr>login = ''c'', name = ''Cy''\<rparr>]
   = Inr [(''[2-3] Al'', ''2-3''), (''[2-3] Bo'', ''2-3''), (''[1] Cy'', ''1'')] \<and>
   (\<exists>b'. leaderboard (\<lambda>p diff result. ''['' @ diff @ result @ ''] '' @ name p)
     (Scoreboard_init (Some [(''a'', [(''p'', 50)]), (''b'', [(''p'', 20), (''q'', 30)]), (''c'', [(''p'', 60)])]) Map.empty)
     [\<lparr>login = ''a'', name = ''Al''\<rparr>, \<lparr>login = ''b'', name = ''Bo''\<rparr>, \<lparr>login = ''c'', name = ''Cy''\<rparr>]
       = Inr b' \<and>
     mset b' = mset [(''[2-3] Al'', ''2-3''), (''[2-3] Bo'', ''2-3''), (''[1] Cy'', ''1'')] \<and>
     sorted (map (\<lambda>x. projr (py_int (first_piece (snd x)))) b')) \<and>
   leaderboard (\<lambda>p diff result. ''['' @ diff @ result @ ''] '' @ name p)
     (Scoreboard_init None Map.empty)
     [\<lparr>login = ''a'', name = ''Al''\<rparr>, \<lparr>login = ''b'', name = ''Bo''\<rparr>, \<lparr>login = ''c'', name = ''Cy''\<rparr>]
   = Inr [(''[?] Al'', ''?''), (''[?] Bo'', ''?''), (''[?] Cy'', ''?'')]"
proof -
  let ?line = "\<lambda>(p :: participant) diff result. ''['' @ diff @ result @ ''] '' @ name p"
  let ?scores = "[(''a'', [(''p'', 50)]), (''b'', [(''p'', 20), (''q'', 30)]), (''c'', [(''p'', 60::real)])]"
  let ?ps = "[\<lparr>login = ''a'', name = ''Al''\<rparr>, \<lparr>login = ''b'', name = ''Bo''\<rparr>, \<lparr>login = ''c'', name = ''Cy''\<rparr>]"
  let ?b = "[(''[2-3] Al'', ''2-3''), (''[2-3] Bo'', ''2-3''), (''[1] Cy'', ''1'')]"
  let ?u = "[(''[?] Al'', ''?''), (''[?] Bo'', ''?''), (''[?] Cy'', ''?'')]"
  have d: "distinct (map fst (case Some ?scores of None \<Rightarrow> [] | Some s \<Rightarrow> s))" by simp
  have dn: "distinct (map fst (case (None :: (string \<times> (string \<times> real) list) list option) of
      None \<Rightarrow> [] | Some s \<Rightarrow> s))" by simp
  have b: "build_lines ?line (Scoreboard_init (Some ?scores) Map.empty) ?ps = Inr ?b"
    by (simp add: Scoreboard_init_def get_result_def total_score_def descriptor_def
        str_nat.simps digit_char_def)
  have u: "build_lines ?line (Scoreboard_init None Map.empty) ?ps = Inr ?u"
    by (simp add: Scoreboard_init_def get_result_def)
  have nq: "\<not> (\<exists>x \<in> set ?b. snd x = ''?'')" by simp
  have q: "\<exists>x \<in> set ?u. snd x = ''?''" by simp
  have 1: "\<exists>b'. leaderboard ?line (Scoreboard_init (Some ?scores) Map.empty) ?ps = Inr b' \<and>
     mset b' = mset ?b \<and> sorted (map (\<lambda>x. projr (py_int (first_piece (snd x)))) b')"
    using leaderboard_order[OF d b] nq by blast
  have 2: "leaderboard ?line (Scoreboard_init None Map.empty) ?ps = Inr ?u"
    using leaderboard_order[OF dn u] q by blast
  show ?thesis using b 1 2 by blast
qed

section \<open>Properties of the fetcher\<close>

lemma retry_loop_faults:
  assumes "\<forall>i. env i = Raises" and "n = nat (retries cfg)" and "k \<le> n"
  shows "retry_loop cfg env [k..<n] delay slept =
           (None, slept @ map (\<lambda>j. delay * retry_delay_exponent cfg ^ (j - k)) [k..<n - 1])"
  using assms(3)
proof (induction "n - k" arbitrary: k delay slept)
  case 0
  then show ?case by simp
next
  case (Suc m)
  then have kn: "k < n" and m: "m = n - Suc k" by simp_all
  have up: "[k..<n] = k # [Suc k..<n]" using kn by (simp add: upt_rec)
  have env: "env k = Raises" using assms(1) by simp
  show ?case
  proof (cases "Suc k < n")
    case True
    then have lt: "int k + 1 < retries cfg" using assms(2) by simp
    have up2: "[k..<n - 1] = k # [Suc k..<n - 1]" using True by (simp add: upt_rec)
    have mp: "map (\<lambda>j. delay * retry_delay_exponent cfg ^ (j - k)) [Suc k..<n - 1] =
          map (\<lambda>j. delay * retry_delay_exponent cfg * retry_delay_exponent cfg ^ (j - Suc k)) [Suc k..<n - 1]"
    proof (rule map_cong[OF refl])
      fix j assume "j \<in> set [Suc k..<n - 1]"
      then have "Suc k \<le> j" by simp
      then have "j - k = Suc (j - Suc k)" by arith
      then show "delay * retry_delay_exponent cfg ^ (j - k) =
          delay * retry_delay_exponent cfg * retry_delay_exponent cfg ^ (j - Suc k)" by simp
    qed
    have hd: "delay * retry_delay_exponent cfg ^ (k - k) = delay" by simp
    have le: "Suc k \<le> n" using True by simp
    have "retry_loop cfg env (k # [Suc k..<n]) delay slept =
          retry_loop cfg env [Suc k..<n] (delay * retry_delay_exponent cfg) (slept @ [delay])"
      using env lt by simp
    also have "\<dots> = (None, (slept @ [delay]) @
          map (\<lambda>j. delay * retry_delay_exponent cfg * retry_delay_exponent cfg ^ (j - Suc k)) [Suc k..<n - 1])"
      by (rule Suc.hyps(1)[OF m le])
    also have "(slept @ [delay]) @
          map (\<lambda>j. delay * retry_delay_exponent cfg * retry_delay_exponent cfg ^ (j - Suc k)) [Suc k..<n - 1] =
          slept @ map (\<lambda>j. delay * retry_delay_exponent cfg ^ (j - k)) (k # [Suc k..<n - 1])"
      by (simp only: list.map hd mp append_assoc append_Cons append_Nil)
    finally show ?thesis unfolding up up2 .
  next
    case False
    then have eq: "Suc k = n" using kn by simp
    then have nlt: "\<not> int k + 1 < retries cfg" using assms(2) by auto
    have "[k..<n - 1] = []" using eq by auto
    then show ?thesis unfolding up using env nlt eq by simp
  qed
qed

text \<open>
  When every attempt raises, the sleeps are the delays the specification describes: the
  running value before each attempt but the first, and none after the last.
\<close>

lemma get_request_all_faults:
  assumes "\<forall>i. env i = Raises"
  shows "get_request cfg env =
           (None, backoff_delays (first_retry_delay cfg) (retry_delay_exponent cfg) (nat (retries cfg)))"
  using retry_loop_faults[OF assms refl, of 0 cfg "first_retry_delay cfg" "[]"]
  by (simp add: get_request_def backoff_delays_def)

lemma retry_loop_statuses:
  assumes "\<forall>i. \<exists>c b. env i = Response c b \<and> c \<noteq> 200"
  shows "retry_loop cfg env is delay slept = (None, slept)"
proof (induction "is")
  case Nil
  then show ?case by simp
next
  case (Cons i "is")
  from assms obtain c b where "env i = Response c b" "c \<noteq> 200" by blast
  then show ?case using Cons by simp
qed

text \<open>
  When every attempt gets an answer with a status other than 200, nothing is slept.
\<close>

lemma get_request_all_statuses:
  assumes "\<forall>i. \<exists>c b. env i = Response c b \<and> c \<noteq> 200"
  shows "get_request cfg env = (None, [])"
  using retry_loop_statuses[OF assms] by (simp add: get_request_def)

text \<open>
  Claim C4. With three attempts, a first delay of 5 and an exponent of 2, three answers with
  status 500 are followed by no sleep at all, where the specification asks for the delays
  5 and 10; three transport faults are followed by exactly these two sleeps.
\<close>

theorem get_request_status_no_sleep:
  "get_request \<lparr>first_retry_delay = 5, retries = 3, retry_delay_exponent = 2\<rparr>
     (\<lambda>i. Response 500 None) = (None, []) \<and>
   backoff_delays 5 2 3 = [5, 10] \<and>
   get_request \<lparr>first_retry_delay = 5, retries = 3, retry_delay_exponent = 2\<rparr>
     (\<lambda>i. Raises) = (None, [5, 10])"
  by (simp add: get_request_def backoff_delays_def upt_rec)

section \<open>Properties of the formatter\<close>

lemma pad_digits_two: "pad_digits 2 m = [digit_char (m div 10 mod 10), digit_char (m mod 10)]"
  by (simp add: numeral_2_eq_2)

lemma round_half_even_nonneg: "0 \<le> x \<Longrightarrow> 0 \<le> round_half_even x"
  by (auto simp: round_half_even_def Let_def)

lemma round_half_even_nearest:
  assumes "0 \<le> x"
  shows "nearest_even x (nat (round_half_even x))"
proof -
  let ?f = "\<lfloor>x\<rfloor>"
  let ?r = "x - of_int ?f"
  have f0: "0 \<le> ?f" using assms by simp
  have r0: "0 \<le> ?r" and r1: "?r < 1" by linarith+
  have rn: "real (nat (round_half_even x)) = of_int (round_half_even x)"
    using round_half_even_nonneg[OF assms] by simp
  have ev: "even (nat (round_half_even x)) \<longleftrightarrow> even (round_half_even x)"
    using round_half_even_nonneg[OF assms] by (simp add: even_nat_iff)
  consider (lo) "?r < 1 / 2" | (hi) "1 / 2 < ?r" | (tie) "?r = 1 / 2" by linarith
  then show ?thesis
  proof cases
    case lo
    then have "round_half_even x = ?f" by (simp add: round_half_even_def Let_def)
    then have "\<bar>real (nat (round_half_even x)) - x\<bar> < 1 / 2" using rn lo r0 by simp
    then show ?thesis by (simp add: nearest_even_def)
  next
    case hi
    then have "round_half_even x = ?f + 1" by (simp add: round_half_even_def Let_def)
    then have "\<bar>real (nat (round_half_even x)) - x\<bar> < 1 / 2" using rn hi r1 by simp
    then show ?thesis by (simp add: nearest_even_def)
  next
    case tie
    show ?thesis
    proof (cases "even ?f")
      case True
      then have e: "round_half_even x = ?f" using tie by (simp add: round_half_even_def Let_def)
      then have "\<bar>real (nat (round_half_even x)) - x\<bar> = 1 / 2" using rn tie by simp
      moreover have "even (nat (round_half_even x))" using ev e True by simp
      ultimately show ?thesis by (simp add: nearest_even_def)
    next
      case False
      then have e: "round_half_even x = ?f + 1" using tie by (simp add: round_half_even_def Let_def)
      then have "\<bar>real (nat (round_half_even x)) - x\<bar> = 1 / 2" using rn tie by simp
      moreover have "even (nat (round_half_even x))" using ev e False by simp
      ultimately show ?thesis by (simp add: nearest_even_def)
    qed
  qed
qed

text \<open>
  There is one such integer, so the statement below determines the output of the formatter.
\<close>

lemma nearest_even_unique:
  assumes "nearest_even x n" and "nearest_even x m"
  shows "n = m"
proof (rule ccontr)
  assume ne: "n \<noteq> m"
  have d: "\<bar>real n - real m\<bar> \<le> \<bar>real n - x\<bar> + \<bar>real m - x\<bar>" by linarith
  have n2: "\<bar>real n - x\<bar> \<le> 1 / 2" and m2: "\<bar>real m - x\<bar> \<le> 1 / 2"
    using assms by (auto simp: nearest_even_def)
  have "1 \<le> \<bar>real n - real m\<bar>" using ne by (cases "n < m") auto
  then have tn: "\<bar>real n - x\<bar> = 1 / 2" and tm: "\<bar>real m - x\<bar> = 1 / 2" and one: "\<bar>real n - real m\<bar> = 1"
    using d n2 m2 by linarith+
  then have "even n" "even m" using assms by (auto simp: nearest_even_def)
  moreover have "n = Suc m \<or> m = Suc n" using one by (cases "n < m") auto
  ultimately show False by auto
qed

lemma magnitude_nonneg: "0 \<le> magnitude v"
  by (cases v) simp_all

lemma two_digits:
  fixes k :: nat
  shows "k mod 100 div 10 < 10" and "k mod 10 < 10"
    and "k mod 100 = 10 * (k mod 100 div 10) + k mod 10"
    and "k mod 100 div 10 mod 10 = k mod 100 div 10" and "k mod 100 mod 10 = k mod 10"
proof -
  show "k mod 100 div 10 < 10" by simp
  show "k mod 10 < 10" by simp
  have m: "k mod 100 mod 10 = k mod 10" by (simp add: mod_mod_cancel)
  show "k mod 100 mod 10 = k mod 10" by (rule m)
  have "k mod 100 = 10 * (k mod 100 div 10) + k mod 100 mod 10" by simp
  then show "k mod 100 = 10 * (k mod 100 div 10) + k mod 10" by (simp only: m)
  show "k mod 100 div 10 mod 10 = k mod 100 div 10" by simp
qed

text \<open>
  Claim C9. For every number, the formatter of a problem that is not fractional renders the
  minus sign of the number, if it has one, and the decimal digits of the integer nearest to
  its magnitude (the even one at a tie), with no decimal point; the formatter of a fractional
  problem renders the sign, the integer part, a point and exactly two digits, which together
  are the hundredths nearest to the magnitude (the even number of hundredths at a tie). A
  non-fractional 100 is \<open>100\<close>; a fractional 66.666 is \<open>66.67\<close>, for the decimal number
  and for the double nearest to it; negative zero is \<open>-0\<close> and \<open>-0.00\<close>.
  \<open>get_points\<close> formats the float sum of the stored vector, or zero when there is none.
\<close>

theorem formatter_decimals:
  "(\<exists>n. nearest_even (magnitude v) n \<and>
        formatter v False = (if sign_bit v then ''-'' else '''') @ str_nat n \<and>
        list_all is_digit (str_nat n) \<and> py_int (str_nat n) = Inr (int n)) \<and>
   (\<exists>n a b. nearest_even (magnitude v * 100) n \<and> a < 10 \<and> b < 10 \<and> n mod 100 = 10 * a + b \<and>
        formatter v True =
          (if sign_bit v then ''-'' else '''') @ str_nat (n div 100) @ ''.'' @ [digit_char a, digit_char b] \<and>
        list_all is_digit (str_nat (n div 100)) \<and> is_digit (digit_char a) \<and> is_digit (digit_char b)) \<and>
   formatter (Finite 100) False = ''100'' \<and>
   formatter (Finite (66666 / 1000)) True = ''66.67'' \<and>
   formatter (Finite (1172800674837037 / 17592186044416)) True = ''66.67'' \<and>
   formatter NegZero False = ''-0'' \<and>
   formatter NegZero True = ''-0.00'' \<and>
   get_points fadd st participant problem fs =
     formatter (Finite (case score_vector st participant problem of
                          None \<Rightarrow> 0 | Some vec \<Rightarrow> fold (\<lambda>x acc. fadd acc x) vec 0)) fs"
proof -
  let ?sign = "if sign_bit v then ''-'' else ''''"
  let ?n0 = "nat (round_half_even (magnitude v))"
  have n0: "nearest_even (magnitude v) ?n0"
    using magnitude_nonneg by (rule round_half_even_nearest)
  have f0: "formatter v False = ?sign @ str_nat ?n0"
    by (simp add: formatter_def formatting_dict_def format_f_def)
  have a: "\<exists>n. nearest_even (magnitude v) n \<and> formatter v False = ?sign @ str_nat n \<and>
        list_all is_digit (str_nat n) \<and> py_int (str_nat n) = Inr (int n)"
    using n0 f0 str_nat_digits[of ?n0] py_int_str_nat[of ?n0] by blast
  let ?n2 = "nat (round_half_even (magnitude v * 100))"
  let ?a = "?n2 mod 100 div 10"
  let ?b = "?n2 mod 10"
  have "0 \<le> magnitude v * 100" using magnitude_nonneg[of v] by simp
  then have n2: "nearest_even (magnitude v * 100) ?n2" by (rule round_half_even_nearest)
  have ab: "?a < 10" "?b < 10" "?n2 mod 100 = 10 * ?a + ?b" by (rule two_digits)+
  have pd: "pad_digits 2 (?n2 mod 100) = [digit_char ?a, digit_char ?b]"
  proof -
    have "?n2 mod 100 div 10 mod 10 = ?a" "?n2 mod 100 mod 10 = ?b" by (rule two_digits)+
    then show ?thesis by (simp only: pad_digits_two)
  qed
  have "formatter v True = ?sign @ str_nat (?n2 div 100) @ ''.'' @ pad_digits 2 (?n2 mod 100)"
    by (simp add: formatter_def formatting_dict_def format_f_def Let_def)
  then have f2: "formatter v True = ?sign @ str_nat (?n2 div 100) @ ''.'' @ [digit_char ?a, digit_char ?b]"
    by (simp only: pd)
  have b: "\<exists>n a b. nearest_even (magnitude v * 100) n \<and> a < 10 \<and> b < 10 \<and> n mod 100 = 10 * a + b \<and>
        formatter v True = ?sign @ str_nat (n div 100) @ ''.'' @ [digit_char a, digit_char b] \<and>
        list_all is_digit (str_nat (n div 100)) \<and> is_digit (digit_char a) \<and> is_digit (digit_char b)"
    using n2 ab f2 str_nat_digits[of "?n2 div 100"] is_digit_digit_char[OF ab(1)] is_digit_digit_char[OF ab(2)]
    by blast
  have c: "formatter (Finite 100) False = ''100''"
    by (simp add: formatter_def formatting_dict_def format_f_def round_half_even_def Let_def
        str_nat.simps digit_char_def)
  have d: "formatter (Finite (66666 / 1000)) True = ''66.67''"
    by (simp add: formatter_def formatting_dict_def format_f_def round_half_even_def Let_def
        str_nat.simps digit_char_def numeral_2_eq_2)
  have e: "formatter (Finite (1172800674837037 / 17592186044416)) True = ''66.67''"
    by (simp add: formatter_def formatting_dict_def format_f_def round_half_even_def Let_def
        str_nat.simps digit_char_def numeral_2_eq_2)
  have z0: "formatter NegZero False = ''-0''"
    by (simp add: formatter_def formatting_dict_def format_f_def round_half_even_def Let_def
        str_nat.simps digit_char_def)
  have z2: "formatter NegZero True = ''-0.00''"
    by (simp add: formatter_def formatting_dict_def format_f_def round_half_even_def Let_def
        str_nat.simps digit_char_def numeral_2_eq_2)
  have f: "get_points fadd st participant problem fs =
     formatter (Finite (case score_vector st participant problem of
                          None \<Rightarrow> 0 | Some vec \<Rightarrow> fold (\<lambda>x acc. fadd acc x) vec 0)) fs"
    by (simp add: get_points_def score_vector_def split: option.splits)
  show ?thesis by (intro conjI a b c d e z0 z2 f)
qed

text \<open>
  By the theorem and the uniqueness of the nearest integer: a tie that goes down to the even
  neighbour, two decimals rounded up, and a negative number that rounds to zero.
\<close>

theorem formatter_decimals_witness:
  "formatter (Finite (5 / 2)) False = ''2'' \<and> formatter (Finite (3 / 8)) True = ''0.38'' \<and>
   formatter (Finite (- (1 / 1000))) True = ''-0.00''"
proof -
  note t1 = formatter_decimals[of "Finite (5 / 2)", THEN conjunct1]
  then obtain n where n: "nearest_even (magnitude (Finite (5 / 2))) n"
    and o: "formatter (Finite (5 / 2)) False = (if sign_bit (Finite (5 / 2)) then ''-'' else '''') @ str_nat n"
    by blast
  have "nearest_even (magnitude (Finite (5 / 2))) 2" by (simp add: nearest_even_def)
  then have "n = 2" using n by (rule nearest_even_unique[rotated])
  then have 1: "formatter (Finite (5 / 2)) False = ''2''"
    using o by (simp add: str_nat.simps digit_char_def)
  note t2 = formatter_decimals[of "Finite (3 / 8)", THEN conjunct2, THEN conjunct1]
  then obtain m a b where m: "nearest_even (magnitude (Finite (3 / 8)) * 100) m"
    and ab: "a < 10" "b < 10" "m mod 100 = 10 * a + b"
    and o2: "formatter (Finite (3 / 8)) True =
      (if sign_bit (Finite (3 / 8)) then ''-'' else '''') @ str_nat (m div 100) @ ''.'' @ [digit_char a, digit_char b]"
    by blast
  have "nearest_even (magnitude (Finite (3 / 8)) * 100) 38" by (simp add: nearest_even_def)
  then have m38: "m = 38" using m by (rule nearest_even_unique[rotated])
  then have "10 * a + b = 38" using ab by simp
  then have "a = 3" "b = 8" using ab(1,2) by arith+
  then have 2: "formatter (Finite (3 / 8)) True = ''0.38''"
    using o2 m38 by (simp add: str_nat.simps digit_char_def)
  note t3 = formatter_decimals[of "Finite (- (1 / 1000))", THEN conjunct2, THEN conjunct1]
  then obtain k c d where k: "nearest_even (magnitude (Finite (- (1 / 1000))) * 100) k"
    and cd: "c < 10" "d < 10" "k mod 100 = 10 * c + d"
    and o3: "formatter (Finite (- (1 / 1000))) True =
      (if sign_bit (Finite (- (1 / 1000))) then ''-'' else '''') @ str_nat (k div 100) @ ''.'' @ [digit_char c, digit_char d]"
    by blast
  have "nearest_even (magnitude (Finite (- (1 / 1000))) * 100) 0" by (simp add: nearest_even_def)
  then have k0: "k = 0" using k by (rule nearest_even_unique[rotated])
  then have "c = 0" "d = 0" using cd by simp_all
  then have 3: "formatter (Finite (- (1 / 1000))) True = ''-0.00''"
    using o3 k0 by (simp add: str_nat.simps digit_char_def)
  show ?thesis using 1 2 3 by blast
qed

end
